theory Spec2Isabelle
  imports Main "HOL-Library.Sublist"
begin

section \<open>Text: the operations of Python's \<open>str\<close> and \<open>re\<close> that the handler uses\<close>

text \<open>
  A query is a Python \<open>str\<close>, a sequence of code points. The model reads a \<open>char\<close> as
  a code point below 256 (Latin-1, which holds every character of the Spanish phrases,
  \<open>U+00FA\<close> included), so \<open>string\<close> is the type of queries and replies; \<open>of_char\<close>
  gives the code point. On this repertoire \<open>str.lower\<close> works character by character
  and stays inside it.
\<close>

definition lower_char :: "char \<Rightarrow> char" where
  "lower_char c =
     (let n = of_char c :: nat
      in if (65 \<le> n \<and> n \<le> 90) \<or> (192 \<le> n \<and> n \<le> 222 \<and> n \<noteq> 215)
         then char_of (n + 32) else c)"

definition lower :: "string \<Rightarrow> string" where
  "lower s = map lower_char s"

text \<open>\<open>str.isspace\<close>: what \<open>str.strip()\<close> removes at both ends.\<close>

definition is_space :: "char \<Rightarrow> bool" where
  "is_space c =
     (let n = of_char c :: nat
      in (9 \<le> n \<and> n \<le> 13) \<or> (28 \<le> n \<and> n \<le> 32) \<or> n = 133 \<or> n = 160)"

definition strip :: "string \<Rightarrow> string" where
  "strip s = rev (dropWhile is_space (rev (dropWhile is_space s)))"

text \<open>
  \<open>\d\<close> of a \<open>str\<close> pattern is a decimal digit, \<open>\w\<close> is an alphanumeric character
  (\<open>str.isalnum\<close>) or the underscore.
\<close>

definition is_digit :: "char \<Rightarrow> bool" where
  "is_digit c = (let n = of_char c :: nat in 48 \<le> n \<and> n \<le> 57)"

definition is_word :: "char \<Rightarrow> bool" where
  "is_word c =
     (let n = of_char c :: nat
      in (48 \<le> n \<and> n \<le> 57) \<or> (65 \<le> n \<and> n \<le> 90) \<or> n = 95 \<or> (97 \<le> n \<and> n \<le> 122)
         \<or> n = 170 \<or> n = 178 \<or> n = 179 \<or> n = 181 \<or> n = 185 \<or> n = 186
         \<or> (188 \<le> n \<and> n \<le> 190) \<or> (192 \<le> n \<and> n \<le> 214) \<or> (216 \<le> n \<and> n \<le> 246)
         \<or> (248 \<le> n \<and> n \<le> 255))"

text \<open>The operator \<open>sub in s\<close> on strings: \<open>sub\<close> occurs in \<open>s\<close> as a contiguous run.\<close>

fun str_in :: "string \<Rightarrow> string \<Rightarrow> bool" where
  "str_in sub [] = (sub = [])"
| "str_in sub (c # cs) = (prefix sub (c # cs) \<or> str_in sub cs)"

text \<open>
  \<open>re.search(r'\b(20\d{2})\b', s)\<close>: the leftmost place where \<open>2\<close>, \<open>0\<close> and two
  digits stand between two word boundaries. \<open>year_at s\<close> tests the pattern at the head of
  \<open>s\<close> but for the leading boundary; \<open>year_scan w s\<close> walks \<open>s\<close>, \<open>w\<close> telling whether
  the character before is a word character. The result is group 1, the four characters.
\<close>

fun year_at :: "string \<Rightarrow> bool" where
  "year_at (c1 # c2 # c3 # c4 # rest) =
     (c1 = CHR ''2'' \<and> c2 = CHR ''0'' \<and> is_digit c3 \<and> is_digit c4
      \<and> (case rest of [] \<Rightarrow> True | c5 # _ \<Rightarrow> \<not> is_word c5))"
| "year_at _ = False"

fun year_scan :: "bool \<Rightarrow> string \<Rightarrow> string option" where
  "year_scan w [] = None"
| "year_scan w (c # cs) =
     (if \<not> w \<and> year_at (c # cs) then Some (take 4 (c # cs)) else year_scan (is_word c) cs)"

definition year_search :: "string \<Rightarrow> string option" where
  "year_search s = year_scan False s"

text \<open>\<open>int(text)\<close> on a run of decimal digits, and \<open>str(n)\<close> as an f-string prints it.\<close>

definition digit_val :: "char \<Rightarrow> nat" where
  "digit_val c = of_char c - 48"

definition digit_char :: "nat \<Rightarrow> char" where
  "digit_char n = ''0123456789'' ! n"

definition int_of_digits :: "string \<Rightarrow> nat" where
  "int_of_digits s = foldl (\<lambda>acc c. 10 * acc + digit_val c) 0 s"

fun str_nat :: "nat \<Rightarrow> string" where
  "str_nat n =
     (if n < 10 then [digit_char n] else str_nat (n div 10) @ [digit_char (n mod 10)])"

declare str_nat.simps [simp del]

text \<open>The width of \<open>%04d\<close> and \<open>%02d\<close>: zeros on the left.\<close>

definition zfill :: "nat \<Rightarrow> string \<Rightarrow> string" where
  "zfill w s = replicate (w - length s) (CHR ''0'') @ s"

section \<open>Calendar dates\<close>

text \<open>
  A \<open>datetime.date\<close> is modelled by its proleptic Gregorian ordinal (\<open>date.toordinal()\<close>,
  1 for 0001-01-01), the number on which \<open>datetime\<close> itself does the arithmetic:
  \<open>d - timedelta(days=k)\<close> is \<open>fromordinal(d.toordinal() - k)\<close> and \<open>d.weekday()\<close> is
  \<open>(d.toordinal() + 6) % 7\<close>, Monday being 0 and Sunday 6. Year, month and day are read
  off the ordinal as \<open>datetime._ord2ymd\<close> does.
\<close>

type_synonym date = int

datatype error =
    ValueError
  | OverflowError
  | ParserError
  | RemoteError
  | HTTPError

definition MAXORDINAL :: int where
  "MAXORDINAL = 3652059"

definition valid_date :: "date \<Rightarrow> bool" where
  "valid_date d = (1 \<le> d \<and> d \<le> MAXORDINAL)"

definition is_leap :: "int \<Rightarrow> bool" where
  "is_leap year = (year mod 4 = 0 \<and> (year mod 100 \<noteq> 0 \<or> year mod 400 = 0))"

definition days_before_year :: "int \<Rightarrow> int" where
  "days_before_year year = (let y = year - 1 in y * 365 + y div 4 - y div 100 + y div 400)"

definition DAYS_IN_MONTH :: "int list" where
  "DAYS_IN_MONTH = [-1, 31, 28, 31, 30, 31, 30, 31, 31, 30, 31, 30, 31]"

definition DAYS_BEFORE_MONTH :: "int list" where
  "DAYS_BEFORE_MONTH = [-1, 0, 31, 59, 90, 120, 151, 181, 212, 243, 273, 304, 334]"

definition days_before_month :: "int \<Rightarrow> int \<Rightarrow> int" where
  "days_before_month year month =
     DAYS_BEFORE_MONTH ! nat month + (if month > 2 \<and> is_leap year then 1 else 0)"

definition ymd2ord :: "int \<Rightarrow> int \<Rightarrow> int \<Rightarrow> date" where
  "ymd2ord year month day = days_before_year year + days_before_month year month + day"

definition ord2ymd :: "date \<Rightarrow> int \<times> int \<times> int" where
  "ord2ymd ordinal =
     (let n = ordinal - 1;
          n400 = n div 146097; n = n mod 146097;
          n100 = n div 36524; n = n mod 36524;
          n4 = n div 1461; n = n mod 1461;
          n1 = n div 365; n = n mod 365;
          year = n400 * 400 + 1 + n100 * 100 + n4 * 4 + n1
      in if n1 = 4 \<or> n100 = 4 then (year - 1, 12, 31)
         else
           let leapyear = (n1 = 3 \<and> (n4 \<noteq> 24 \<or> n100 = 3));
               month = (n + 50) div 32;
               preceding = DAYS_BEFORE_MONTH ! nat month
                             + (if month > 2 \<and> leapyear then 1 else 0)
           in if preceding > n
              then let month = month - 1;
                       preceding = preceding
                         - (DAYS_IN_MONTH ! nat month + (if month = 2 \<and> leapyear then 1 else 0))
                   in (year, month, n - preceding + 1)
              else (year, month, n - preceding + 1))"

text \<open>\<open>date + timedelta(days=k)\<close> for any integer \<open>k\<close>; a result off the calendar raises.\<close>

definition date_add :: "date \<Rightarrow> int \<Rightarrow> error + date" where
  "date_add d k = (let o' = d + k in if 0 < o' \<and> o' \<le> MAXORDINAL then Inr o' else Inl OverflowError)"

definition date_sub :: "date \<Rightarrow> int \<Rightarrow> error + date" where
  "date_sub d k = date_add d (- k)"

definition weekday :: "date \<Rightarrow> int" where
  "weekday d = (d + 6) mod 7"

text \<open>\<open>d.replace(day=1)\<close>: day 1 exists in every month, so the new date is always built.\<close>

definition replace_day1 :: "date \<Rightarrow> date" where
  "replace_day1 d = (case ord2ymd d of (year, month, _) \<Rightarrow> ymd2ord year month 1)"

definition isoformat :: "date \<Rightarrow> string" where
  "isoformat d =
     (case ord2ymd d of (year, month, day) \<Rightarrow>
        zfill 4 (str_nat (nat year)) @ ''-'' @ zfill 2 (str_nat (nat month)) @ ''-''
          @ zfill 2 (str_nat (nat day)))"

section \<open>Date queries\<close>

text \<open>
  The resolved dates travel as a Python \<open>dict\<close> with string keys, built by the fallback
  parser or read by \<open>json.loads\<close> from the agent's reply, so a value is any JSON value.
\<close>

datatype json =
    JNull
  | JBool bool
  | JNumber string
  | JString string
  | JArray "json list"
  | JObject "(string \<times> json) list"

type_synonym dict = "string \<rightharpoonup> json"

definition single_query :: "string \<Rightarrow> dict" where
  "single_query d = [''date'' \<mapsto> JString d]"

definition range_query :: "string \<Rightarrow> string \<Rightarrow> dict" where
  "range_query s e = [''start'' \<mapsto> JString s, ''end'' \<mapsto> JString e]"

section \<open>The fallback parser (\<open>src/seacrh_by_date\<close>)\<close>

text \<open>
  The first and the last branch of \<open>fallback_date_parser\<close> hold the same four lines:
  the first day of this month, the day before it, and the first day of that month.
\<close>

definition previous_month :: "date \<Rightarrow> error + dict" where
  "previous_month today =
     (case date_sub (replace_day1 today) 1 of
        Inl e \<Rightarrow> Inl e
      | Inr last_month \<Rightarrow>
          (let start_of_last_month = replace_day1 last_month
           in Inr (range_query (isoformat start_of_last_month) (isoformat last_month))))"

text \<open>\<open>today\<close> is \<open>datetime.now().date()\<close>, read when the parser is called.\<close>

definition fallback_date_parser :: "date \<Rightarrow> string \<Rightarrow> error + dict" where
  "fallback_date_parser today user_query =
     (let query_lower = strip (lower user_query)
      in if str_in ''mes pasado'' query_lower \<or> str_in (CHR 0xFA # ''ltimo mes'') query_lower
         then previous_month today
         else if str_in ''semana pasada'' query_lower
                 \<or> str_in (CHR 0xFA # ''ltima semana'') query_lower
         then (let days_back = (weekday today + 1) mod 7 + 6
               in case date_sub today days_back of
                    Inl e \<Rightarrow> Inl e
                  | Inr start_of_last_week \<Rightarrow>
                      (case date_add start_of_last_week 6 of
                         Inl e \<Rightarrow> Inl e
                       | Inr end_of_last_week \<Rightarrow>
                           Inr (range_query (isoformat start_of_last_week)
                                  (isoformat end_of_last_week))))
         else if str_in ''ayer'' query_lower
         then (case date_sub today 1 of
                 Inl e \<Rightarrow> Inl e
               | Inr yesterday \<Rightarrow> Inr (single_query (isoformat yesterday)))
         else if str_in ''hoy'' query_lower
         then Inr (single_query (isoformat today))
         else (case year_search query_lower of
                 Some group1 \<Rightarrow>
                   (let year = int_of_digits group1
                    in Inr (range_query (str_nat year @ ''-01-01'') (str_nat year @ ''-12-31'')))
               | None \<Rightarrow> previous_month today))"

section \<open>The filter builder\<close>

text \<open>
  \<open>dateutil.parser.parse\<close> is not code of this repository: \<open>parse_date\<close> is a
  parameter, the date of the \<open>datetime\<close> it returns or the exception it raises.
\<close>

definition build_filter_expression :: "(json \<Rightarrow> error + date) \<Rightarrow> dict \<Rightarrow> error + string" where
  "build_filter_expression parse_date date_data =
     (case date_data ''date'' of
        Some v \<Rightarrow>
          (case parse_date v of
             Inl e \<Rightarrow> Inl e
           | Inr d \<Rightarrow> Inr (''metadata_spo_item_release_date eq '' @ isoformat d @ ''T00:00:00Z''))
      | None \<Rightarrow>
          (case (date_data ''start'', date_data ''end'') of
             (Some vs, Some ve) \<Rightarrow>
               (case parse_date vs of
                  Inl e \<Rightarrow> Inl e
                | Inr start \<Rightarrow>
                    (case parse_date ve of
                       Inl e \<Rightarrow> Inl e
                     | Inr end' \<Rightarrow>
                         Inr (''(metadata_spo_item_release_date ge '' @ isoformat start
                              @ ''T00:00:00Z and metadata_spo_item_release_date le ''
                              @ isoformat end' @ ''T23:59:59Z)'')))
           | _ \<Rightarrow> Inr []))"

section \<open>The agent's reply\<close>

text \<open>
  A message of the thread: its role and the values of its text parts. The listing is in
  ascending order, oldest first.
\<close>

record message =
  role :: string
  text_messages :: "string list"

text \<open>
  What the calls to the agent service come to: one of them raises, the run ends as
  \<open>failed\<close>, or the messages of the thread are listed.
\<close>

datatype remote = RemoteRaises | RunFailed | Listed "message list"

text \<open>The loop over the messages: each assistant message with text parts overwrites the answer.\<close>

fun agent_response :: "string option \<Rightarrow> message list \<Rightarrow> string option" where
  "agent_response acc [] = acc"
| "agent_response acc (m # ms) =
     agent_response
       (if role m = ''assistant'' \<and> text_messages m \<noteq> [] then Some (last (text_messages m))
        else acc) ms"

text \<open>
  \<open>re.search(r'\{[^{}]*\}', s)\<close>. After an opening brace, \<open>brace_body\<close> reads the
  characters up to the next brace and gives them when that brace closes.
\<close>

fun brace_body :: "string \<Rightarrow> string option" where
  "brace_body [] = None"
| "brace_body (c # cs) =
     (if c = CHR ''}'' then Some []
      else if c = CHR ''{'' then None
      else map_option ((#) c) (brace_body cs))"

fun brace_search :: "string \<Rightarrow> string option" where
  "brace_search [] = None"
| "brace_search (c # cs) =
     (if c = CHR ''{''
      then (case brace_body cs of
              Some b \<Rightarrow> Some (CHR ''{'' # b @ ''}'')
            | None \<Rightarrow> brace_search cs)
      else brace_search cs)"

definition framed :: "string \<Rightarrow> bool" where
  "framed s = (s \<noteq> [] \<and> hd s = CHR ''{'' \<and> last s = CHR ''}'')"

text \<open>
  \<open>json.loads\<close> is a parameter. It is only called on a text that starts with an opening
  brace, where it returns a \<open>dict\<close> or raises \<open>JSONDecodeError\<close> (\<open>None\<close>), which the
  handler of \<open>call_date_parser_agent\<close> turns into a \<open>ValueError\<close>.
\<close>

definition extract_json :: "(string \<Rightarrow> dict option) \<Rightarrow> string \<Rightarrow> error + dict" where
  "extract_json json_loads response =
     (let response = strip response
      in if framed response
         then (case json_loads response of None \<Rightarrow> Inl ValueError | Some d \<Rightarrow> Inr d)
         else (case brace_search response of
                 Some json_str \<Rightarrow>
                   (case json_loads json_str of None \<Rightarrow> Inl ValueError | Some d \<Rightarrow> Inr d)
               | None \<Rightarrow> Inl ValueError))"

section \<open>The request handler\<close>

text \<open>
  What the handler finds around it: whether the project client was built at import
  (\<open>project\<close>), what the agent service does with a query, the two library parsers, the
  date of the clock, and what the search service answers to a filter.
\<close>

record services =
  project :: bool
  agent :: "string \<Rightarrow> remote"
  json_loads :: "string \<Rightarrow> dict option"
  parse_date :: "json \<Rightarrow> error + date"
  clock :: date
  search_filtered_items :: "string \<Rightarrow> error + json"

definition call_date_parser_agent :: "services \<Rightarrow> string \<Rightarrow> error + dict" where
  "call_date_parser_agent sv user_query =
     (if \<not> project sv then Inl ValueError
      else case agent sv user_query of
             RemoteRaises \<Rightarrow> Inl RemoteError
           | RunFailed \<Rightarrow> Inl ValueError
           | Listed messages \<Rightarrow>
               (case agent_response None messages of
                  None \<Rightarrow> Inl ValueError
                | Some response \<Rightarrow>
                    if response = [] then Inl ValueError
                    else extract_json (json_loads sv) response))"

text \<open>Step 1 of \<open>main\<close>: the agent, and the fallback parser on any exception.\<close>

definition resolve_dates :: "services \<Rightarrow> string \<Rightarrow> error + dict" where
  "resolve_dates sv user_query =
     (case call_date_parser_agent sv user_query of
        Inr parsed_date_info \<Rightarrow> Inr parsed_date_info
      | Inl _ \<Rightarrow> fallback_date_parser (clock sv) user_query)"

datatype body =
    MissingParameter
  | NoValidDate
  | Failure error
  | Found dict json

record response =
  status_code :: nat
  body :: body

text \<open>
  \<open>main\<close> gives the response and the filters it posted to the search service, in order.
  An exception that reaches the outer handler becomes the response 500.
\<close>

definition main :: "services \<Rightarrow> string option \<Rightarrow> response \<times> string list" where
  "main sv q =
     (case q of
        None \<Rightarrow> (\<lparr>status_code = 400, body = MissingParameter\<rparr>, [])
      | Some user_query \<Rightarrow>
          if user_query = [] then (\<lparr>status_code = 400, body = MissingParameter\<rparr>, [])
          else case resolve_dates sv user_query of
                 Inl e \<Rightarrow> (\<lparr>status_code = 500, body = Failure e\<rparr>, [])
               | Inr parsed_date_info \<Rightarrow>
                   (case build_filter_expression (parse_date sv) parsed_date_info of
                      Inl e \<Rightarrow> (\<lparr>status_code = 500, body = Failure e\<rparr>, [])
                    | Inr filter_string \<Rightarrow>
                        if filter_string = []
                        then (\<lparr>status_code = 400, body = NoValidDate\<rparr>, [])
                        else (case search_filtered_items sv filter_string of
                                Inl e \<Rightarrow>
                                  (\<lparr>status_code = 500, body = Failure e\<rparr>, [filter_string])
                              | Inr results \<Rightarrow>
                                  (\<lparr>status_code = 200, body = Found parsed_date_info results\<rparr>,
                                   [filter_string]))))"

section \<open>Year tokens\<close>


section \<open>Reading the calendar algorithm\<close>

text \<open>
  The last lines of \<open>_ord2ymd\<close> on their own, for the proofs: month and day of the
  \<open>n\<close>-th day of a year, counted from 0.
\<close>

definition month_day :: "bool \<Rightarrow> int \<Rightarrow> int \<times> int" where
  "month_day leapyear n =
     (let month = (n + 50) div 32;
          preceding = DAYS_BEFORE_MONTH ! nat month + (if month > 2 \<and> leapyear then 1 else 0)
      in if preceding > n
         then (month - 1,
               n - (preceding - (DAYS_IN_MONTH ! nat (month - 1)
                                  + (if month - 1 = 2 \<and> leapyear then 1 else 0))) + 1)
         else (month, n - preceding + 1))"

section \<open>Stand-ins for the libraries and services, for concrete runs\<close>

text \<open>
  A strict reader of ISO calendar dates \<open>YYYY-MM-DD\<close>, on which \<open>dateutil\<close> agrees
  with it; \<open>days_in_month\<close> is \<open>datetime._days_in_month\<close>.
\<close>

definition days_in_month :: "int \<Rightarrow> int \<Rightarrow> int" where
  "days_in_month year month =
     (if month = 2 \<and> is_leap year then 29 else DAYS_IN_MONTH ! nat month)"

definition parse_iso :: "json \<Rightarrow> error + date" where
  "parse_iso v =
     (case v of
        JString s \<Rightarrow>
          (let year = int (int_of_digits (take 4 s));
               month = int (int_of_digits (take 2 (drop 5 s)));
               day = int (int_of_digits (drop 8 s))
           in if length s = 10 \<and> s ! 4 = CHR ''-'' \<and> s ! 7 = CHR ''-''
                 \<and> list_all is_digit (take 4 s @ take 2 (drop 5 s) @ drop 8 s)
                 \<and> 1 \<le> year \<and> 1 \<le> month \<and> month \<le> 12
                 \<and> 1 \<le> day \<and> day \<le> days_in_month year month
              then Inr (ymd2ord year month day)
              else Inl ParserError)
      | _ \<Rightarrow> Inl ParserError)"

text \<open>\<open>json.loads\<close> on the three texts of the examples.\<close>

definition sample_loads :: "string \<Rightarrow> dict option" where
  \<open>sample_loads s =
     (if s = ''{}'' then Some Map.empty
      else if s = ''{"start": "2024-04-01"}'' then Some [''start'' \<mapsto> JString ''2024-04-01'']
      else None)\<close>

text \<open>
  Services whose agent answers every query with one assistant message \<open>reply\<close>, on
  2024-05-15 (ordinal 739021), with a search service that finds nothing.
\<close>

definition sample_services :: "string \<Rightarrow> services" where
  "sample_services reply =
     \<lparr>project = True,
      agent = (\<lambda>q. Listed [\<lparr>role = ''user'', text_messages = [q]\<rparr>,
                            \<lparr>role = ''assistant'', text_messages = [reply]\<rparr>]),
      json_loads = sample_loads,
      parse_date = parse_iso,
      clock = 739021,
      search_filtered_items = (\<lambda>f. Inr (JArray []))\<rparr>"

section \<open>The second handler (\<open>src/search_by_date\<close>)\<close>


text \<open>
  \<open>re.search(r'\{.*?\}', s)\<close>: from the leftmost opening brace after which a closing
  brace comes before any line feed, up to the first such closing brace.
\<close>

fun lazy_body :: "string \<Rightarrow> string option" where
  "lazy_body [] = None"
| "lazy_body (c # cs) =
     (if c = CHR ''}'' then Some []
      else if c = CHR 0x0A then None
      else map_option ((#) c) (lazy_body cs))"

fun lazy_brace_search :: "string \<Rightarrow> string option" where
  "lazy_brace_search [] = None"
| "lazy_brace_search (c # cs) =
     (if c = CHR ''{''
      then (case lazy_body cs of
              Some b \<Rightarrow> Some (CHR ''{'' # b @ ''}'')
            | None \<Rightarrow> lazy_brace_search cs)
      else lazy_brace_search cs)"

text \<open>
  The loop of this \<open>call_date_parser_agent\<close> returns from inside: at the first assistant
  message with text parts whose last text is framed by braces or holds a match, it parses
  and returns (or raises, when \<open>json.loads\<close> does); a message without a match is passed.
\<close>

fun agent_json_rag :: "(string \<Rightarrow> dict option) \<Rightarrow> message list \<Rightarrow> error + dict" where
  "agent_json_rag loads [] = Inl ValueError"
| "agent_json_rag loads (msg # msgs) =
     (if role msg = ''assistant'' \<and> text_messages msg \<noteq> []
      then (let response_text = strip (last (text_messages msg))
            in if framed response_text
               then (case loads response_text of None \<Rightarrow> Inl ValueError | Some d \<Rightarrow> Inr d)
               else (case lazy_brace_search response_text of
                       Some json_str \<Rightarrow>
                         (case loads json_str of None \<Rightarrow> Inl ValueError | Some d \<Rightarrow> Inr d)
                     | None \<Rightarrow> agent_json_rag loads msgs))
      else agent_json_rag loads msgs)"

definition call_date_parser_agent_rag :: "services \<Rightarrow> string \<Rightarrow> error + dict" where
  "call_date_parser_agent_rag sv user_query =
     (if \<not> project sv then Inl ValueError
      else case agent sv user_query of
             RemoteRaises \<Rightarrow> Inl RemoteError
           | RunFailed \<Rightarrow> Inl ValueError
           | Listed messages \<Rightarrow> agent_json_rag (json_loads sv) messages)"

text \<open>Services whose thread is given, with the stand-ins above for the rest.\<close>

definition thread_services :: "message list \<Rightarrow> services" where
  "thread_services messages =
     \<lparr>project = True,
      agent = (\<lambda>q. Listed messages),
      json_loads = sample_loads,
      parse_date = parse_iso,
      clock = 739021,
      search_filtered_items = (\<lambda>f. Inr (JArray []))\<rparr>"

section \<open>Brace substrings\<close>


definition lazy_match :: "string \<Rightarrow> bool" where
  "lazy_match t =
     (2 \<le> length t \<and> hd t = CHR ''{'' \<and> last t = CHR ''}''
      \<and> list_all (\<lambda>c. c \<noteq> CHR ''}'' \<and> c \<noteq> CHR 0x0A) (butlast (tl t)))"

section \<open>Substrings, \<open>strip\<close> and \<open>lower\<close>\<close>

lemma str_in_sublist: "str_in sub s \<longleftrightarrow> sublist sub s"
  by (induction s) (simp_all add: sublist_Cons_right)

lemma sublist_dropWhile_iff:
  assumes "p \<noteq> []" "\<not> P (hd p)"
  shows "sublist p (dropWhile P s) \<longleftrightarrow> sublist p s"
proof (induction s)
  case Nil
  show ?case by simp
next
  case (Cons c cs)
  show ?case
  proof (cases "P c")
    case True
    have "\<not> prefix p (c # cs)"
    proof
      assume "prefix p (c # cs)"
      with assms(1) have "hd p = c" by (cases p) auto
      with True assms(2) show False by simp
    qed
    with True Cons show ?thesis by (simp add: sublist_Cons_right)
  next
    case False
    then show ?thesis by simp
  qed
qed

lemma sublist_strip:
  assumes "p \<noteq> []" "\<not> is_space (hd p)" "\<not> is_space (last p)"
  shows "sublist p (strip s) \<longleftrightarrow> sublist p s"
proof -
  have r: "rev p \<noteq> []" "\<not> is_space (hd (rev p))"
    using assms by (simp_all add: hd_rev)
  have "sublist p (strip s) \<longleftrightarrow> sublist (rev p) (dropWhile is_space (rev (dropWhile is_space s)))"
    unfolding strip_def by (metis sublist_rev rev_rev_ident)
  also have "\<dots> \<longleftrightarrow> sublist (rev p) (rev (dropWhile is_space s))"
    using sublist_dropWhile_iff [of "rev p" is_space, OF r] .
  also have "\<dots> \<longleftrightarrow> sublist p (dropWhile is_space s)"
    by simp
  also have "\<dots> \<longleftrightarrow> sublist p s"
    using sublist_dropWhile_iff [of p is_space, OF assms(1,2)] .
  finally show ?thesis .
qed

lemma str_in_strip:
  assumes "p \<noteq> []" "\<not> is_space (hd p)" "\<not> is_space (last p)"
  shows "str_in p (strip s) \<longleftrightarrow> str_in p s"
  using sublist_strip [OF assms] by (simp add: str_in_sublist)

text \<open>No phrase of the parser starts or ends with a space, so \<open>strip\<close> keeps every match.\<close>

lemma phrase_strip:
  "str_in ''mes pasado'' (strip s) = str_in ''mes pasado'' s"
  "str_in (CHR 0xFA # ''ltimo mes'') (strip s) = str_in (CHR 0xFA # ''ltimo mes'') s"
  "str_in ''semana pasada'' (strip s) = str_in ''semana pasada'' s"
  "str_in (CHR 0xFA # ''ltima semana'') (strip s) = str_in (CHR 0xFA # ''ltima semana'') s"
  "str_in ''ayer'' (strip s) = str_in ''ayer'' s"
  "str_in ''hoy'' (strip s) = str_in ''hoy'' s"
  by (rule str_in_strip; simp add: is_space_def)+

lemma str_in_lower: "str_in p s \<Longrightarrow> str_in (lower p) (lower s)"
  unfolding lower_def str_in_sublist by (rule map_mono_sublist)

lemma hoy_lower: "str_in ''hoy'' q \<Longrightarrow> str_in ''hoy'' (lower q)"
  using str_in_lower [of "''hoy''" q] by (simp add: lower_def lower_char_def)

section \<open>The calendar: \<open>ord2ymd\<close> inverts \<open>ymd2ord\<close>\<close>

lemma month_day_sound:
  assumes r: "0 \<le> r" "r \<le> 364" and md: "month_day L r = (m, d)"
  shows "1 \<le> m \<and> m \<le> 12 \<and> 1 \<le> d
         \<and> d \<le> DAYS_IN_MONTH ! nat m + (if m = 2 \<and> L then 1 else 0)
         \<and> DAYS_BEFORE_MONTH ! nat m + (if m > 2 \<and> L then 1 else 0) + d = r + 1"
proof -
  define k where "k = (r + 50) div 32"
  have kb: "32 * k \<le> r + 50" "r + 50 < 32 * k + 32"
    unfolding k_def by arith+
  with r have "1 \<le> k" "k \<le> 12" by arith+
  then have kk: "k = 1 \<or> k = 2 \<or> k = 3 \<or> k = 4 \<or> k = 5 \<or> k = 6
      \<or> k = 7 \<or> k = 8 \<or> k = 9 \<or> k = 10 \<or> k = 11 \<or> k = 12"
    by arith
  have md': "month_day L r =
     (let preceding = DAYS_BEFORE_MONTH ! nat k + (if k > 2 \<and> L then 1 else 0)
      in if preceding > r
         then (k - 1,
               r - (preceding - (DAYS_IN_MONTH ! nat (k - 1)
                                  + (if k - 1 = 2 \<and> L then 1 else 0))) + 1)
         else (k, r - preceding + 1))"
    by (simp add: month_day_def Let_def k_def)
  from kk kb r md [unfolded md'] show ?thesis
    by (elim disjE; simp add: Let_def DAYS_BEFORE_MONTH_def DAYS_IN_MONTH_def split: if_splits;
        auto)
qed

lemma dby_decomp:
  assumes "0 \<le> b" "b \<le> 3" "0 \<le> c" "c \<le> 24" "0 \<le> e" "e \<le> 3"
  shows "days_before_year (400 * a + 100 * b + 4 * c + e + 1)
           = 146097 * a + 36524 * b + 1461 * c + 365 * e"
proof -
  define Y where "Y = 400 * a + 100 * b + 4 * c + e"
  have d4: "Y div 4 = 100 * a + 25 * b + c"
    unfolding Y_def using assms by arith
  have d100: "Y div 100 = 4 * a + b"
    unfolding Y_def using assms by arith
  have d400: "Y div 400 = a"
    unfolding Y_def using assms by arith
  show ?thesis
    unfolding days_before_year_def Let_def
    using d4 d100 d400 by (simp add: Y_def)
qed

lemma mod_top:
  fixes t :: int
  assumes "1 \<le> t" "t \<le> q"
  shows "(q * u + t) mod q = 0 \<longleftrightarrow> t = q"
proof -
  have "(q * u + t) mod q = t mod q"
    by simp
  moreover have "t mod q = 0 \<longleftrightarrow> t = q"
  proof (cases "t = q")
    case True
    then show ?thesis by simp
  next
    case False
    with assms have "t mod q = t" by simp
    with assms False show ?thesis by simp
  qed
  ultimately show ?thesis by simp
qed

lemma leap_decomp:
  assumes "0 \<le> b" "b \<le> 3" "0 \<le> c" "c \<le> 24" "0 \<le> e" "e \<le> 3"
  shows "is_leap (400 * a + 100 * b + 4 * c + e + 1) \<longleftrightarrow> (e = 3 \<and> (c \<noteq> 24 \<or> b = 3))"
proof -
  define Y where "Y = 400 * a + 100 * b + 4 * c + e + 1"
  have "Y = 4 * (100 * a + 25 * b + c) + (e + 1)"
    by (simp add: Y_def)
  then have m4: "Y mod 4 = 0 \<longleftrightarrow> e = 3"
    using mod_top [of "e + 1" 4 "100 * a + 25 * b + c"] assms by auto
  have "Y = 100 * (4 * a + b) + (4 * c + e + 1)"
    by (simp add: Y_def)
  moreover have "4 * c + e + 1 = 100 \<longleftrightarrow> (c = 24 \<and> e = 3)"
    using assms by arith
  ultimately have m100: "Y mod 100 = 0 \<longleftrightarrow> (c = 24 \<and> e = 3)"
    using mod_top [of "4 * c + e + 1" 100 "4 * a + b"] assms by simp
  have "Y = 400 * a + (100 * b + 4 * c + e + 1)"
    by (simp add: Y_def)
  moreover have "100 * b + 4 * c + e + 1 = 400 \<longleftrightarrow> (b = 3 \<and> c = 24 \<and> e = 3)"
    using assms by arith
  ultimately have m400: "Y mod 400 = 0 \<longleftrightarrow> (b = 3 \<and> c = 24 \<and> e = 3)"
    using mod_top [of "100 * b + 4 * c + e + 1" 400 a] assms by simp
  show ?thesis
    unfolding is_leap_def Y_def [symmetric] using m4 m100 m400 by auto
qed


lemma ord2ymd_sound:
  assumes n: "1 \<le> n" and o: "ord2ymd n = (y, m, d)"
  shows "ymd2ord y m d = n \<and> 1 \<le> y \<and> 1 \<le> m \<and> m \<le> 12 \<and> 1 \<le> d
         \<and> d \<le> days_in_month y m \<and> (n \<le> MAXORDINAL \<longrightarrow> y \<le> 9999)"
proof -
  define a where "a = (n - 1) div 146097"
  define r1 where "r1 = (n - 1) mod 146097"
  define b where "b = r1 div 36524"
  define r2 where "r2 = r1 mod 36524"
  define c where "c = r2 div 1461"
  define r3 where "r3 = r2 mod 1461"
  define e where "e = r3 div 365"
  define r where "r = r3 mod 365"
  define L where "L \<longleftrightarrow> e = 3 \<and> (c \<noteq> 24 \<or> b = 3)"
  have s1: "n - 1 = 146097 * a + r1" "0 \<le> r1" "r1 < 146097"
    unfolding a_def r1_def by simp_all
  have s2: "r1 = 36524 * b + r2" "0 \<le> r2" "r2 < 36524"
    unfolding b_def r2_def by simp_all
  have s3: "r2 = 1461 * c + r3" "0 \<le> r3" "r3 < 1461"
    unfolding c_def r3_def by simp_all
  have s4: "r3 = 365 * e + r" "0 \<le> r" "r < 365"
    unfolding e_def r_def by simp_all
  have a0: "0 \<le> a"
    unfolding a_def using n by simp
  have b0: "0 \<le> b" "b \<le> 4"
    using s1 s2 by arith+
  have c0: "0 \<le> c" "c \<le> 24"
    using s2 s3 by arith+
  have e0: "0 \<le> e" "e \<le> 4"
    using s3 s4 by arith+
  have sum: "n = 146097 * a + 36524 * b + 1461 * c + 365 * e + r + 1"
    using s1 s2 s3 s4 by arith
  have ord: "ord2ymd n =
      (if e = 4 \<or> b = 4 then (400 * a + 100 * b + 4 * c + e, 12, 31)
       else case month_day L r of (m, d) \<Rightarrow> (400 * a + 100 * b + 4 * c + e + 1, m, d))"
    unfolding ord2ymd_def Let_def
    unfolding a_def [symmetric] r1_def [symmetric] b_def [symmetric] r2_def [symmetric]
      c_def [symmetric] r3_def [symmetric] e_def [symmetric] r_def [symmetric]
    by (simp add: month_day_def Let_def L_def)
  have amax: "n \<le> MAXORDINAL \<Longrightarrow> a \<le> 24"
    using s1 by (simp add: MAXORDINAL_def)
  show ?thesis
  proof (cases "b = 4")
    case True
    with s1 s2 have "r2 = 0" by arith
    with s3 s4 have z: "c = 0" "e = 0" "r = 0"
      unfolding c_def r3_def e_def r_def by simp_all
    from o ord True z have ymd: "y = 400 * a + 400" "m = 12" "d = 31"
      by simp_all
    have yy: "y = 400 * a + 100 * 3 + 4 * 24 + 3 + 1"
      by (simp add: ymd)
    have dby: "days_before_year y = 146097 * a + 145731"
      unfolding yy by (subst dby_decomp) simp_all
    have leap: "is_leap y"
      unfolding yy by (subst leap_decomp) simp_all
    have "ymd2ord y m d = n"
      using dby leap sum True z
      by (simp add: ymd2ord_def days_before_month_def DAYS_BEFORE_MONTH_def ymd(2,3))
    moreover have "d \<le> days_in_month y m"
      by (simp add: days_in_month_def DAYS_IN_MONTH_def ymd(2,3))
    moreover have "1 \<le> y"
      using a0 by (simp add: ymd)
    moreover have "n \<le> MAXORDINAL \<longrightarrow> y \<le> 9999"
      using s1 s2 True by (simp add: MAXORDINAL_def ymd)
    ultimately show ?thesis
      by (simp add: ymd)
  next
    case b4: False
    with b0 have b3: "b \<le> 3" by simp
    show ?thesis
    proof (cases "e = 4")
      case True
      with s3 s4 have z: "r = 0" by arith
      from True s2 s3 s4 have c23: "c \<le> 23" by arith
      from o ord True have ymd: "y = 400 * a + 100 * b + 4 * c + 4" "m = 12" "d = 31"
        by simp_all
      have yy: "y = 400 * a + 100 * b + 4 * c + 3 + 1"
        by (simp add: ymd)
      have dby: "days_before_year y = 146097 * a + 36524 * b + 1461 * c + 1095"
        unfolding yy using b0 b3 c0 by (subst dby_decomp) simp_all
      have leap: "is_leap y"
        unfolding yy using b0 b3 c0 c23 by (subst leap_decomp) simp_all
      have "ymd2ord y m d = n"
        using dby leap sum True z
        by (simp add: ymd2ord_def days_before_month_def DAYS_BEFORE_MONTH_def ymd(2,3))
      moreover have "d \<le> days_in_month y m"
        by (simp add: days_in_month_def DAYS_IN_MONTH_def ymd(2,3))
      moreover have "1 \<le> y"
        using a0 b0 c0 by (simp add: ymd)
      moreover have "n \<le> MAXORDINAL \<longrightarrow> y \<le> 9999"
        using amax b3 c23 by (auto simp: ymd)
      ultimately show ?thesis
        by (simp add: ymd)
    next
      case e4: False
      with e0 have e3: "e \<le> 3" by simp
      obtain m' d' where md: "month_day L r = (m', d')"
        by (cases "month_day L r")
      from o ord b4 e4 md have ymd: "y = 400 * a + 100 * b + 4 * c + e + 1" "m = m'" "d = d'"
        by simp_all
      from month_day_sound [OF s4(2) _ md] s4(3)
      have ms: "1 \<le> m" "m \<le> 12" "1 \<le> d"
        "d \<le> DAYS_IN_MONTH ! nat m + (if m = 2 \<and> L then 1 else 0)"
        "DAYS_BEFORE_MONTH ! nat m + (if m > 2 \<and> L then 1 else 0) + d = r + 1"
        by (simp_all add: ymd)
      have dby: "days_before_year y = 146097 * a + 36524 * b + 1461 * c + 365 * e"
        unfolding ymd using b0 b3 c0 e0 e3 by (intro dby_decomp)
      have leap: "is_leap y \<longleftrightarrow> L"
        unfolding ymd L_def using b0 b3 c0 e0 e3 by (intro leap_decomp)
      have "ymd2ord y m d = n"
        using dby leap sum ms(5) by (simp add: ymd2ord_def days_before_month_def)
      moreover have "d \<le> days_in_month y m"
        using ms(4) leap by (auto simp: days_in_month_def DAYS_IN_MONTH_def)
      moreover have "1 \<le> y"
        using a0 b0 c0 e0 by (simp add: ymd)
      moreover have "n \<le> MAXORDINAL \<longrightarrow> y \<le> 9999"
      proof
        assume mx: "n \<le> MAXORDINAL"
        show "y \<le> 9999"
        proof (cases "a = 24")
          case True
          with mx s1 have "r1 \<le> 145730" by (simp add: MAXORDINAL_def)
          have "100 * b + 4 * c + e \<le> 398"
          proof (cases "b = 3")
            case b: True
            with \<open>r1 \<le> 145730\<close> s2 have r2: "r2 \<le> 36158" by simp
            show ?thesis
            proof (cases "c = 24")
              case c: True
              with r2 s3 have "r3 \<le> 1094" by simp
              with s4 have "e \<le> 2" by simp
              with b c show ?thesis by simp
            next
              case False
              with c0 have "c \<le> 23" by simp
              with b e3 show ?thesis by simp
            qed
          next
            case False
            with b3 have "b \<le> 2" by simp
            with c0 e3 show ?thesis by simp
          qed
          with True show ?thesis by (simp add: ymd)
        next
          case False
          with amax [OF mx] have "a \<le> 23" by simp
          with b3 c0 e3 show ?thesis by (simp add: ymd)
        qed
      qed
      ultimately show ?thesis
        using ms by simp
    qed
  qed
qed

section \<open>The fallback parser returns\<close>

lemma days_in_month_le: "1 \<le> m \<Longrightarrow> m \<le> 12 \<Longrightarrow> days_in_month y m \<le> 31"
proof -
  assume "1 \<le> m" "m \<le> 12"
  then have "m = 1 \<or> m = 2 \<or> m = 3 \<or> m = 4 \<or> m = 5 \<or> m = 6
      \<or> m = 7 \<or> m = 8 \<or> m = 9 \<or> m = 10 \<or> m = 11 \<or> m = 12"
    by arith
  then show ?thesis
    by (elim disjE; simp add: days_in_month_def DAYS_IN_MONTH_def)
qed

lemma days_before_month_ge: "1 \<le> m \<Longrightarrow> m \<le> 12 \<Longrightarrow> 0 \<le> days_before_month y m"
proof -
  assume "1 \<le> m" "m \<le> 12"
  then have "m = 1 \<or> m = 2 \<or> m = 3 \<or> m = 4 \<or> m = 5 \<or> m = 6
      \<or> m = 7 \<or> m = 8 \<or> m = 9 \<or> m = 10 \<or> m = 11 \<or> m = 12"
    by arith
  then show ?thesis
    by (elim disjE; simp add: days_before_month_def DAYS_BEFORE_MONTH_def)
qed

lemma days_before_year_ge: "1 \<le> y \<Longrightarrow> 0 \<le> days_before_year y"
proof -
  assume y: "1 \<le> y"
  define z where "z = y - 1"
  have "z div 100 \<le> z div 4"
    using y unfolding z_def by (intro zdiv_mono2) simp_all
  moreover have "0 \<le> z div 400" "0 \<le> z * 365"
    using y unfolding z_def by simp_all
  ultimately show ?thesis
    unfolding days_before_year_def Let_def z_def [symmetric] by linarith
qed

lemma replace_day1_bounds:
  assumes "1 \<le> d"
  shows "1 \<le> replace_day1 d \<and> replace_day1 d \<le> d \<and> d - 30 \<le> replace_day1 d"
proof -
  obtain y m dd where o: "ord2ymd d = (y, m, dd)"
    by (cases "ord2ymd d")
  from ord2ymd_sound [OF assms o]
  have s: "ymd2ord y m dd = d" "1 \<le> y" "1 \<le> m" "m \<le> 12" "1 \<le> dd" "dd \<le> days_in_month y m"
    by simp_all
  have r: "replace_day1 d = d - dd + 1"
    using s(1) by (simp add: replace_day1_def o ymd2ord_def)
  have "dd \<le> 31"
    using s(6) days_in_month_le [OF s(3,4), of y] by simp
  moreover have "1 \<le> replace_day1 d"
    using days_before_year_ge [OF s(2)] days_before_month_ge [OF s(3,4), of y]
    by (simp add: replace_day1_def o ymd2ord_def)
  ultimately show ?thesis
    using r s(5) by simp
qed

lemma previous_month_total:
  assumes "31 < today" "today \<le> MAXORDINAL"
  shows "\<exists>first last. previous_month today = Inr (range_query (isoformat first) (isoformat last))
           \<and> valid_date first \<and> valid_date last"
proof -
  define f where "f = replace_day1 today"
  have fb: "1 \<le> f" "f \<le> today" "today - 30 \<le> f"
    using replace_day1_bounds [of today] assms(1) by (simp_all add: f_def)
  then have sub: "date_sub f 1 = Inr (f - 1)"
    using assms by (simp add: date_sub_def date_add_def)
  have l: "1 \<le> f - 1" "f - 1 \<le> MAXORDINAL"
    using fb assms by simp_all
  have "1 \<le> replace_day1 (f - 1)" "replace_day1 (f - 1) \<le> MAXORDINAL"
    using replace_day1_bounds [OF l(1)] l(2) by simp_all
  moreover have "previous_month today
      = Inr (range_query (isoformat (replace_day1 (f - 1))) (isoformat (f - 1)))"
    using sub by (simp add: previous_month_def f_def [symmetric] Let_def)
  ultimately show ?thesis
    using l unfolding valid_date_def by blast
qed

lemma fallback_total:
  assumes "31 < today" "today \<le> MAXORDINAL"
  shows "\<exists>dq. fallback_date_parser today user_query = Inr dq
           \<and> ((\<exists>d. dq = single_query (isoformat d) \<and> valid_date d)
               \<or> (\<exists>s e. dq = range_query (isoformat s) (isoformat e)
                     \<and> valid_date s \<and> valid_date e)
               \<or> (\<exists>g. year_search (strip (lower user_query)) = Some g
                     \<and> dq = range_query (str_nat (int_of_digits g) @ ''-01-01'')
                                        (str_nat (int_of_digits g) @ ''-12-31'')))"
proof -
  define ql where "ql = strip (lower user_query)"
  define days_back where "days_back = (weekday today + 1) mod 7 + 6"
  have b: "6 \<le> days_back" "days_back \<le> 12"
    unfolding days_back_def by presburger+
  have w1: "date_sub today days_back = Inr (today - days_back)"
    using b assms by (simp add: date_sub_def date_add_def)
  have w2: "date_add (today - days_back) 6 = Inr (today - days_back + 6)"
    using b assms by (simp add: date_add_def)
  have wv: "valid_date (today - days_back)" "valid_date (today - days_back + 6)"
    using b assms by (simp_all add: valid_date_def)
  have y: "date_sub today 1 = Inr (today - 1)" "valid_date (today - 1)" "valid_date today"
    using assms by (simp_all add: date_sub_def date_add_def valid_date_def)
  from previous_month_total [OF assms] obtain first last where
    pm: "previous_month today = Inr (range_query (isoformat first) (isoformat last))"
      "valid_date first" "valid_date last"
    by blast
  show ?thesis
  proof (cases "str_in ''mes pasado'' ql \<or> str_in (CHR 0xFA # ''ltimo mes'') ql")
    case True
    then have "fallback_date_parser today user_query
        = Inr (range_query (isoformat first) (isoformat last))"
      using pm(1) by (auto simp: fallback_date_parser_def ql_def [symmetric])
    with pm(2,3) show ?thesis by blast
  next
    case m: False
    show ?thesis
    proof (cases "str_in ''semana pasada'' ql \<or> str_in (CHR 0xFA # ''ltima semana'') ql")
      case True
      with m w1 w2 have "fallback_date_parser today user_query
          = Inr (range_query (isoformat (today - days_back)) (isoformat (today - days_back + 6)))"
        by (auto simp: fallback_date_parser_def ql_def [symmetric] days_back_def [symmetric])
      with wv show ?thesis by blast
    next
      case w: False
      show ?thesis
      proof (cases "str_in ''ayer'' ql")
        case True
        with m w y(1) have "fallback_date_parser today user_query
            = Inr (single_query (isoformat (today - 1)))"
          by (auto simp: fallback_date_parser_def ql_def [symmetric])
        with y(2) show ?thesis by blast
      next
        case a: False
        show ?thesis
        proof (cases "str_in ''hoy'' ql")
          case True
          with m w a have "fallback_date_parser today user_query
              = Inr (single_query (isoformat today))"
            by (auto simp: fallback_date_parser_def ql_def [symmetric])
          with y(3) show ?thesis by blast
        next
          case h: False
          show ?thesis
          proof (cases "year_search ql")
            case None
            with m w a h pm(1) have "fallback_date_parser today user_query
                = Inr (range_query (isoformat first) (isoformat last))"
              by (auto simp: fallback_date_parser_def ql_def [symmetric])
            with pm(2,3) show ?thesis by blast
          next
            case (Some g)
            with m w a h have "fallback_date_parser today user_query
                = Inr (range_query (str_nat (int_of_digits g) @ ''-01-01'')
                                   (str_nat (int_of_digits g) @ ''-12-31''))"
              by (auto simp: fallback_date_parser_def ql_def [symmetric] Let_def)
            with Some show ?thesis unfolding ql_def by blast
          qed
        qed
      qed
    qed
  qed
qed

section \<open>Concrete days\<close>

lemma ord_2024_05_15: "ymd2ord 2024 5 15 = 739021"
  by (simp add: ymd2ord_def days_before_year_def days_before_month_def DAYS_BEFORE_MONTH_def
      is_leap_def)

lemma ord_2024_05_06: "ymd2ord 2024 5 6 = 739012"
  by (simp add: ymd2ord_def days_before_year_def days_before_month_def DAYS_BEFORE_MONTH_def
      is_leap_def)

lemma ord_2024_04_29: "ymd2ord 2024 4 29 = 739005"
  by (simp add: ymd2ord_def days_before_year_def days_before_month_def DAYS_BEFORE_MONTH_def
      is_leap_def)

lemma ord_2024_04_01: "ymd2ord 2024 4 1 = 738977"
  by (simp add: ymd2ord_def days_before_year_def days_before_month_def DAYS_BEFORE_MONTH_def
      is_leap_def)

lemma ord_2024_04_30: "ymd2ord 2024 4 30 = 739006"
  by (simp add: ymd2ord_def days_before_year_def days_before_month_def DAYS_BEFORE_MONTH_def
      is_leap_def)

lemmas ymd_eval = ord2ymd_def Let_def DAYS_BEFORE_MONTH_def DAYS_IN_MONTH_def

lemmas iso_eval = zfill_def digit_char_def str_nat.simps

lemma ymd_2024_05_15: "ord2ymd 739021 = (2024, 5, 15)"
  by (simp add: ymd_eval)

lemma iso_2024_05_15: "isoformat 739021 = ''2024-05-15''"
  unfolding isoformat_def ymd_2024_05_15 prod.case by (simp add: iso_eval)

lemma ymd_2024_05_14: "ord2ymd 739020 = (2024, 5, 14)"
  by (simp add: ymd_eval)

lemma iso_2024_05_14: "isoformat 739020 = ''2024-05-14''"
  unfolding isoformat_def ymd_2024_05_14 prod.case by (simp add: iso_eval)

lemma ymd_2024_05_12: "ord2ymd 739018 = (2024, 5, 12)"
  by (simp add: ymd_eval)

lemma iso_2024_05_12: "isoformat 739018 = ''2024-05-12''"
  unfolding isoformat_def ymd_2024_05_12 prod.case by (simp add: iso_eval)

lemma ymd_2024_05_06: "ord2ymd 739012 = (2024, 5, 6)"
  by (simp add: ymd_eval)

lemma iso_2024_05_06: "isoformat 739012 = ''2024-05-06''"
  unfolding isoformat_def ymd_2024_05_06 prod.case by (simp add: iso_eval)

lemma ymd_2024_04_29: "ord2ymd 739005 = (2024, 4, 29)"
  by (simp add: ymd_eval)

lemma iso_2024_04_29: "isoformat 739005 = ''2024-04-29''"
  unfolding isoformat_def ymd_2024_04_29 prod.case by (simp add: iso_eval)

lemma ymd_2024_04_01: "ord2ymd 738977 = (2024, 4, 1)"
  by (simp add: ymd_eval)

lemma iso_2024_04_01: "isoformat 738977 = ''2024-04-01''"
  unfolding isoformat_def ymd_2024_04_01 prod.case by (simp add: iso_eval)

lemma ymd_2024_04_30: "ord2ymd 739006 = (2024, 4, 30)"
  by (simp add: ymd_eval)

lemma iso_2024_04_30: "isoformat 739006 = ''2024-04-30''"
  unfolding isoformat_def ymd_2024_04_30 prod.case by (simp add: iso_eval)

lemmas parse_iso_eval = parse_iso_def Let_def int_of_digits_def digit_val_def is_digit_def
  days_in_month_def DAYS_IN_MONTH_def is_leap_def

lemma parse_iso_2024_04_29: "parse_iso (JString ''2024-04-29'') = Inr 739005"
  by (simp add: parse_iso_eval ord_2024_04_29)

lemma parse_iso_2024_04_01: "parse_iso (JString ''2024-04-01'') = Inr 738977"
  by (simp add: parse_iso_eval ord_2024_04_01)

lemma parse_iso_2024_04_30: "parse_iso (JString ''2024-04-30'') = Inr 739006"
  by (simp add: parse_iso_eval ord_2024_04_30)

lemmas text_eval = strip_def lower_def lower_char_def is_space_def

section \<open>The week of the fallback parser\<close>

text \<open>
  C1, as the code has it. When the lower-cased query holds \<open>semana pasada\<close> or
  \<open>\<uacute>ltima semana\<close> and no month phrase, the parser returns the seven days from
  \<open>start\<close> to \<open>start + 6\<close>, where \<open>start\<close> is a Monday (weekday 0) and \<open>start + 6\<close> the
  Sunday after it (weekday 6), not a Sunday and a Saturday. When today is not a Sunday,
  \<open>start\<close> is the Monday seven days before the Monday of today's week, so the range is the
  last completed Monday-to-Sunday week. Today is any date from 0001-01-13 on, so that
  twelve days back stay on the calendar.
\<close>

theorem fallback_last_week_monday_to_sunday:
  assumes "str_in ''semana pasada'' (lower user_query)
             \<or> str_in (CHR 0xFA # ''ltima semana'') (lower user_query)"
    and "\<not> str_in ''mes pasado'' (lower user_query)"
    and "\<not> str_in (CHR 0xFA # ''ltimo mes'') (lower user_query)"
    and "12 < today" and "today \<le> MAXORDINAL"
  shows "\<exists>start. fallback_date_parser today user_query
                    = Inr (range_query (isoformat start) (isoformat (start + 6)))
           \<and> weekday start = 0 \<and> weekday (start + 6) = 6
           \<and> (weekday today \<noteq> 6 \<longrightarrow> start = today - weekday today - 7)"
proof -
  define days_back where "days_back = (weekday today + 1) mod 7 + 6"
  define start where "start = today - days_back"
  have b: "6 \<le> days_back" "days_back \<le> 12"
    unfolding days_back_def by presburger+
  have s: "date_sub today days_back = Inr start"
    using b assms(4,5) by (simp add: date_sub_def date_add_def start_def)
  have e: "date_add start 6 = Inr (start + 6)"
    using b assms(4,5) by (simp add: date_add_def start_def)
  have "fallback_date_parser today user_query
          = Inr (range_query (isoformat start) (isoformat (start + 6)))"
    using assms(1-3) s e
    by (simp add: fallback_date_parser_def Let_def days_back_def phrase_strip)
  moreover have "weekday start = 0" "weekday (start + 6) = 6"
    unfolding start_def days_back_def weekday_def by presburger+
  moreover have "weekday today \<noteq> 6 \<longrightarrow> start = today - weekday today - 7"
    unfolding start_def days_back_def weekday_def by presburger
  ultimately show ?thesis by blast
qed

text \<open>
  On Wednesday 2024-05-15 the theorem gives the week from Monday 2024-05-06 to Sunday
  2024-05-12.
\<close>

theorem fallback_last_week_witness:
  "\<exists>start. fallback_date_parser 739021 ''semana pasada''
             = Inr (range_query (isoformat start) (isoformat (start + 6)))
     \<and> weekday start = 0 \<and> weekday (start + 6) = 6 \<and> start = 739012"
  using fallback_last_week_monday_to_sunday [of "''semana pasada''" 739021]
  by (simp add: text_eval MAXORDINAL_def weekday_def)

text \<open>
  The claim as the specification states it, with \<open>start\<close> a Sunday, fails on Wednesday
  2024-05-15: the range starts on 2024-05-06, whose weekday is 0, a Monday.
\<close>

theorem fallback_last_week_counterexample:
  "fallback_date_parser (ymd2ord 2024 5 15) ''semana pasada''
     = Inr (range_query ''2024-05-06'' ''2024-05-12'')
   \<and> isoformat (ymd2ord 2024 5 6) = ''2024-05-06''
   \<and> weekday (ymd2ord 2024 5 6) = 0 \<and> weekday (ymd2ord 2024 5 6) \<noteq> 6"
  by (simp add: fallback_date_parser_def Let_def weekday_def date_sub_def date_add_def
      MAXORDINAL_def ord_2024_05_15 ord_2024_05_06 iso_2024_05_06 iso_2024_05_12 text_eval)

section \<open>Today\<close>

text \<open>
  C2, as the code has it. A query that holds \<open>hoy\<close>, and whose lower-cased form holds
  none of the phrases tested before it (\<open>mes pasado\<close>, \<open>\<uacute>ltimo mes\<close>,
  \<open>semana pasada\<close>, \<open>\<uacute>ltima semana\<close>, \<open>ayer\<close>), resolves to the single date of
  today.
\<close>

theorem fallback_today_after_priorities:
  assumes "str_in ''hoy'' user_query"
    and "\<not> str_in ''mes pasado'' (lower user_query)"
    and "\<not> str_in (CHR 0xFA # ''ltimo mes'') (lower user_query)"
    and "\<not> str_in ''semana pasada'' (lower user_query)"
    and "\<not> str_in (CHR 0xFA # ''ltima semana'') (lower user_query)"
    and "\<not> str_in ''ayer'' (lower user_query)"
  shows "fallback_date_parser today user_query = Inr (single_query (isoformat today))"
  using assms hoy_lower [OF assms(1)] by (simp add: fallback_date_parser_def phrase_strip)

theorem fallback_today_witness:
  "str_in ''hoy'' ''que hay hoy'' \<and> \<not> str_in ''ayer'' (lower ''que hay hoy'')
   \<and> fallback_date_parser 739021 ''que hay hoy'' = Inr (single_query ''2024-05-15'')"
  using fallback_today_after_priorities [of "''que hay hoy''" 739021]
  by (simp add: text_eval iso_2024_05_15)

text \<open>
  The claim for every query that holds \<open>hoy\<close> fails on \<open>ayer y hoy\<close>: the branch of
  \<open>ayer\<close> comes first and the answer is yesterday, 2024-05-14, not 2024-05-15.
\<close>

theorem fallback_today_counterexample:
  "str_in ''hoy'' ''ayer y hoy''
   \<and> fallback_date_parser (ymd2ord 2024 5 15) ''ayer y hoy'' = Inr (single_query ''2024-05-14'')
   \<and> isoformat (ymd2ord 2024 5 15) = ''2024-05-15''
   \<and> single_query ''2024-05-14'' \<noteq> single_query ''2024-05-15''"
proof -
  have "single_query ''2024-05-14'' ''date'' \<noteq> single_query ''2024-05-15'' ''date''"
    by (simp add: single_query_def)
  then have "single_query ''2024-05-14'' \<noteq> single_query ''2024-05-15''"
    by metis
  then show ?thesis
    by (simp add: fallback_date_parser_def Let_def date_sub_def date_add_def MAXORDINAL_def
        ord_2024_05_15 iso_2024_05_14 iso_2024_05_15 text_eval)
qed

section \<open>The filter builder\<close>

lemma build_filter_empty:
  "date_data ''date'' = None \<Longrightarrow> date_data ''start'' = None \<or> date_data ''end'' = None
     \<Longrightarrow> build_filter_expression pd date_data = Inr []"
  by (auto simp: build_filter_expression_def split: option.splits)

lemma main_empty_filter:
  "user_query \<noteq> [] \<Longrightarrow> resolve_dates sv user_query = Inr d
     \<Longrightarrow> build_filter_expression (parse_date sv) d = Inr []
     \<Longrightarrow> main sv (Some user_query) = (\<lparr>status_code = 400, body = NoValidDate\<rparr>, [])"
  by (simp add: main_def)

text \<open>
  C4. A dict with a \<open>date\<close> becomes the \<open>eq\<close> filter and a dict with \<open>start\<close> and
  \<open>end\<close> (and no \<open>date\<close>) the \<open>ge\<close>/\<open>le\<close> filter, each date being what \<open>parse_date\<close>
  read, printed again by \<open>isoformat\<close>. With a \<open>parse_date\<close> that reads the three ISO
  dates of the specification's examples as those days, the two examples give the two
  filter strings of the specification.
\<close>

theorem build_filter_expression_shapes:
  "(date_data ''date'' = Some v \<and> pd v = Inr d \<longrightarrow>
      build_filter_expression pd date_data
        = Inr (''metadata_spo_item_release_date eq '' @ isoformat d @ ''T00:00:00Z''))
   \<and> (date_data ''date'' = None \<and> date_data ''start'' = Some vs \<and> date_data ''end'' = Some ve
        \<and> pd vs = Inr s \<and> pd ve = Inr e \<longrightarrow>
      build_filter_expression pd date_data
        = Inr (''(metadata_spo_item_release_date ge '' @ isoformat s
               @ ''T00:00:00Z and metadata_spo_item_release_date le '' @ isoformat e
               @ ''T23:59:59Z)''))
   \<and> (pd (JString ''2024-04-29'') = Inr (ymd2ord 2024 4 29) \<longrightarrow>
      build_filter_expression pd (single_query ''2024-04-29'')
        = Inr ''metadata_spo_item_release_date eq 2024-04-29T00:00:00Z'')
   \<and> (pd (JString ''2024-04-01'') = Inr (ymd2ord 2024 4 1)
        \<and> pd (JString ''2024-04-30'') = Inr (ymd2ord 2024 4 30) \<longrightarrow>
      build_filter_expression pd (range_query ''2024-04-01'' ''2024-04-30'')
        = Inr ''(metadata_spo_item_release_date ge 2024-04-01T00:00:00Z and metadata_spo_item_release_date le 2024-04-30T23:59:59Z)'')"
  by (simp add: build_filter_expression_def single_query_def range_query_def
      ord_2024_04_29 ord_2024_04_01 ord_2024_04_30 iso_2024_04_29 iso_2024_04_01 iso_2024_04_30)

theorem build_filter_expression_shapes_witness:
  "parse_iso (JString ''2024-04-29'') = Inr (ymd2ord 2024 4 29)
   \<and> build_filter_expression parse_iso (single_query ''2024-04-29'')
       = Inr ''metadata_spo_item_release_date eq 2024-04-29T00:00:00Z''
   \<and> build_filter_expression parse_iso (range_query ''2024-04-01'' ''2024-04-30'')
       = Inr ''(metadata_spo_item_release_date ge 2024-04-01T00:00:00Z and metadata_spo_item_release_date le 2024-04-30T23:59:59Z)''"
  using build_filter_expression_shapes [of "single_query ''2024-04-29''" "JString ''2024-04-29''"
      parse_iso 739005 "JString ''2024-04-01''" "JString ''2024-04-30''" 738977 739006]
  by (simp add: parse_iso_2024_04_29 parse_iso_2024_04_01 parse_iso_2024_04_30
      ord_2024_04_29 ord_2024_04_01 ord_2024_04_30)

section \<open>No filter, no search\<close>

lemma strip_braces: "strip ''{}'' = ''{}''"
  by (simp add: text_eval)

lemmas agent_eval = sample_services_def resolve_dates_def call_date_parser_agent_def
  extract_json_def framed_def sample_loads_def

text \<open>
  C5. A dict with no \<open>date\<close> and without one of \<open>start\<close> and \<open>end\<close>, the empty dict
  among them, gives the empty filter; and when the dict that step 1 resolved gives the
  empty filter, \<open>main\<close> answers 400 and has posted nothing to the search service.
\<close>

theorem empty_filter_is_rejected:
  "(date_data ''date'' = None \<and> (date_data ''start'' = None \<or> date_data ''end'' = None) \<longrightarrow>
      build_filter_expression pd date_data = Inr [])
   \<and> build_filter_expression pd Map.empty = Inr []
   \<and> (user_query \<noteq> [] \<and> resolve_dates sv user_query = Inr d
        \<and> build_filter_expression (parse_date sv) d = Inr [] \<longrightarrow>
      status_code (fst (main sv (Some user_query))) = 400
      \<and> snd (main sv (Some user_query)) = [])"
  by (simp add: build_filter_empty main_empty_filter)

text \<open>The agent answers \<open>{}\<close>: the dict is empty, the response is 400.\<close>

theorem empty_filter_is_rejected_witness:
  "resolve_dates (sample_services ''{}'') ''hoy'' = Inr Map.empty
   \<and> status_code (fst (main (sample_services ''{}'') (Some ''hoy''))) = 400
   \<and> snd (main (sample_services ''{}'') (Some ''hoy'')) = []"
  using empty_filter_is_rejected [of Map.empty parse_iso "''hoy''" "sample_services ''{}''" Map.empty]
  by (simp add: agent_eval strip_braces build_filter_expression_def)

section \<open>The most recent answer of the agent\<close>

lemma agent_response_append:
  "agent_response acc (xs @ ys) = agent_response (agent_response acc xs) ys"
  by (induction xs arbitrary: acc) simp_all

lemma agent_response_skip:
  "\<forall>m \<in> set ms. \<not> (role m = ''assistant'' \<and> text_messages m \<noteq> [])
     \<Longrightarrow> agent_response acc ms = acc"
  by (induction ms arbitrary: acc) auto

text \<open>
  The loop of \<open>src/seacrh_by_date\<close>. In a thread listed oldest first, let \<open>m\<close> be an
  assistant message with text parts after which no assistant message with text parts
  comes. Whatever comes before it, the loop ends with the last text part of \<open>m\<close>, and
  that text, when it is not empty, is the one \<open>call_date_parser_agent\<close> extracts the
  JSON from.
\<close>

theorem agent_reply_is_most_recent:
  assumes "role m = ''assistant''" and "text_messages m \<noteq> []"
    and "\<forall>m' \<in> set newer. \<not> (role m' = ''assistant'' \<and> text_messages m' \<noteq> [])"
  shows "agent_response None (older @ m # newer) = Some (last (text_messages m))
     \<and> (project sv \<and> agent sv user_query = Listed (older @ m # newer)
          \<and> last (text_messages m) \<noteq> [] \<longrightarrow>
        call_date_parser_agent sv user_query
          = extract_json (json_loads sv) (last (text_messages m)))"
proof -
  have "agent_response None (older @ m # newer) = Some (last (text_messages m))"
    using assms by (simp add: agent_response_append agent_response_skip)
  then show ?thesis
    by (simp add: call_date_parser_agent_def)
qed

theorem agent_reply_is_most_recent_witness:
  "agent_response None
     ([\<lparr>role = ''user'', text_messages = [''hoy'']\<rparr>,
       \<lparr>role = ''assistant'', text_messages = [''first'']\<rparr>]
      @ \<lparr>role = ''assistant'', text_messages = [''draft'', ''second'']\<rparr>
      # [\<lparr>role = ''assistant'', text_messages = []\<rparr>,
         \<lparr>role = ''user'', text_messages = [''later'']\<rparr>])
   = Some ''second''"
  using agent_reply_is_most_recent
    [of "\<lparr>role = ''assistant'', text_messages = [''draft'', ''second'']\<rparr>"
        "[\<lparr>role = ''assistant'', text_messages = []\<rparr>,
          \<lparr>role = ''user'', text_messages = [''later'']\<rparr>]"
        "[\<lparr>role = ''user'', text_messages = [''hoy'']\<rparr>,
          \<lparr>role = ''assistant'', text_messages = [''first'']\<rparr>]"]
  by simp

lemma strip_start_only: \<open>strip ''{"start": "2024-04-01"}'' = ''{"start": "2024-04-01"}''\<close>
  by (simp add: text_eval)

text \<open>
  C7, on \<open>src/search_by_date\<close>. The thread holds the user's query, an assistant reply
  \<open>{}\<close> and then a newer assistant reply with a \<open>start\<close>. The loop of
  \<open>src/seacrh_by_date\<close> ends on the newer reply; the loop of \<open>src/search_by_date\<close>
  returns at the older one.
\<close>

theorem agent_reply_rag_is_oldest:
  \<open>agent_response None
      [\<lparr>role = ''user'', text_messages = [''abril'']\<rparr>,
       \<lparr>role = ''assistant'', text_messages = [''{}'']\<rparr>,
       \<lparr>role = ''assistant'', text_messages = [''{"start": "2024-04-01"}'']\<rparr>]
     = Some ''{"start": "2024-04-01"}''
   \<and> call_date_parser_agent
        (thread_services
          [\<lparr>role = ''user'', text_messages = [''abril'']\<rparr>,
           \<lparr>role = ''assistant'', text_messages = [''{}'']\<rparr>,
           \<lparr>role = ''assistant'', text_messages = [''{"start": "2024-04-01"}'']\<rparr>])
        ''abril''
     = Inr [''start'' \<mapsto> JString ''2024-04-01'']
   \<and> call_date_parser_agent_rag
        (thread_services
          [\<lparr>role = ''user'', text_messages = [''abril'']\<rparr>,
           \<lparr>role = ''assistant'', text_messages = [''{}'']\<rparr>,
           \<lparr>role = ''assistant'', text_messages = [''{"start": "2024-04-01"}'']\<rparr>])
        ''abril''
     = Inr Map.empty\<close>
  by (simp add: thread_services_def call_date_parser_agent_def call_date_parser_agent_rag_def
      extract_json_def framed_def sample_loads_def strip_braces strip_start_only)

section \<open>Half a range\<close>

text \<open>
  C10. A dict with \<open>start\<close> and no \<open>end\<close>, or \<open>end\<close> and no \<open>start\<close>, and no
  \<open>date\<close>, gives the empty filter; when the agent's reply is such a dict, \<open>main\<close>
  answers 400 and has posted nothing to the search service.
\<close>

theorem partial_range_is_rejected:
  assumes "date_data ''date'' = None"
    and "(date_data ''start'' \<noteq> None \<and> date_data ''end'' = None)
         \<or> (date_data ''start'' = None \<and> date_data ''end'' \<noteq> None)"
  shows "build_filter_expression pd date_data = Inr []
     \<and> (user_query \<noteq> [] \<and> call_date_parser_agent sv user_query = Inr date_data \<longrightarrow>
          main sv (Some user_query) = (\<lparr>status_code = 400, body = NoValidDate\<rparr>, []))"
proof -
  have e: "build_filter_expression p date_data = Inr []" for p
    using assms by (intro build_filter_empty) auto
  have "main sv (Some user_query) = (\<lparr>status_code = 400, body = NoValidDate\<rparr>, [])"
    if "user_query \<noteq> []" "call_date_parser_agent sv user_query = Inr date_data"
    using that e by (intro main_empty_filter [of _ _ date_data]) (simp_all add: resolve_dates_def)
  with e show ?thesis by blast
qed

theorem partial_range_is_rejected_witness:
  \<open>call_date_parser_agent (sample_services ''{"start": "2024-04-01"}'') ''abril''
     = Inr [''start'' \<mapsto> JString ''2024-04-01'']
   \<and> main (sample_services ''{"start": "2024-04-01"}'') (Some ''abril'')
     = (\<lparr>status_code = 400, body = NoValidDate\<rparr>, [])\<close>
  using partial_range_is_rejected [of "[''start'' \<mapsto> JString ''2024-04-01'']" parse_iso "''abril''"
      \<open>sample_services ''{"start": "2024-04-01"}''\<close>]
  by (simp add: agent_eval strip_start_only)

section \<open>The resolver always answers\<close>

text \<open>
  C8. With a clock from 0001-02-01 on (any day of which the month before is on the
  calendar), step 1 of \<open>main\<close> yields a dict for every query: when the agent path raises,
  whatever the exception, the dict is the one of the fallback parser, and the fallback
  parser returns a dict with \<open>date\<close>, or with \<open>start\<close> and \<open>end\<close>, for every query.
\<close>

theorem date_resolution_never_raises:
  assumes "31 < clock sv" and "clock sv \<le> MAXORDINAL"
  shows "(\<exists>dq. resolve_dates sv user_query = Inr dq)
     \<and> (\<forall>e. call_date_parser_agent sv user_query = Inl e \<longrightarrow>
           resolve_dates sv user_query = fallback_date_parser (clock sv) user_query)
     \<and> (\<exists>dq. fallback_date_parser (clock sv) user_query = Inr dq
           \<and> (dq ''date'' \<noteq> None \<or> (dq ''start'' \<noteq> None \<and> dq ''end'' \<noteq> None)))"
proof -
  from fallback_total [OF assms, of user_query] obtain dq where
    f: "fallback_date_parser (clock sv) user_query = Inr dq"
    and k: "(\<exists>d. dq = single_query d) \<or> (\<exists>s e. dq = range_query s e)"
    by blast
  from k have "dq ''date'' \<noteq> None \<or> (dq ''start'' \<noteq> None \<and> dq ''end'' \<noteq> None)"
    by (auto simp: single_query_def range_query_def)
  with f have 3: "\<exists>dq. fallback_date_parser (clock sv) user_query = Inr dq
      \<and> (dq ''date'' \<noteq> None \<or> (dq ''start'' \<noteq> None \<and> dq ''end'' \<noteq> None))"
    by blast
  have 2: "\<forall>e. call_date_parser_agent sv user_query = Inl e \<longrightarrow>
      resolve_dates sv user_query = fallback_date_parser (clock sv) user_query"
    by (simp add: resolve_dates_def)
  have 1: "\<exists>dq. resolve_dates sv user_query = Inr dq"
    using f by (cases "call_date_parser_agent sv user_query") (simp_all add: resolve_dates_def)
  from 1 2 3 show ?thesis by blast
qed

theorem date_resolution_never_raises_witness:
  "call_date_parser_agent (sample_services ''sin json'') ''hoy'' = Inl ValueError
   \<and> resolve_dates (sample_services ''sin json'') ''hoy'' = Inr (single_query ''2024-05-15'')"
  using date_resolution_never_raises [of "sample_services ''sin json''" "''hoy''"]
  by (simp add: agent_eval text_eval MAXORDINAL_def fallback_date_parser_def iso_2024_05_15)

section \<open>Characters\<close>

lemma of_char_less: "(of_char c :: nat) < 256"
  by (metis of_char_mod_256 mod_less_divisor zero_less_numeral)

lemma of_char_lower:
  "(of_char (lower_char c) :: nat) =
     (if (65 \<le> (of_char c :: nat) \<and> (of_char c :: nat) \<le> 90)
         \<or> (192 \<le> (of_char c :: nat) \<and> (of_char c :: nat) \<le> 222 \<and> (of_char c :: nat) \<noteq> 215)
      then of_char c + 32 else of_char c)"
  by (simp add: lower_char_def Let_def)

lemma is_word_lower [simp]: "is_word (lower_char c) = is_word c"
  unfolding is_word_def Let_def of_char_lower using of_char_less [of c] by auto

lemma is_digit_lower [simp]: "is_digit (lower_char c) = is_digit c"
  unfolding is_digit_def Let_def of_char_lower by auto

lemma lower_char_eq_digit:
  assumes "is_digit d"
  shows "lower_char c = d \<longleftrightarrow> c = d"
proof -
  have "lower_char c = d \<longleftrightarrow> (of_char (lower_char c) :: nat) = of_char d"
    by simp
  also have "\<dots> \<longleftrightarrow> (of_char c :: nat) = of_char d"
    using assms unfolding of_char_lower is_digit_def Let_def by auto
  finally show ?thesis by simp
qed

lemma lower_char_2 [simp]: "lower_char c = CHR ''2'' \<longleftrightarrow> c = CHR ''2''"
  by (rule lower_char_eq_digit) (simp add: is_digit_def)

lemma lower_char_0 [simp]: "lower_char c = CHR ''0'' \<longleftrightarrow> c = CHR ''0''"
  by (rule lower_char_eq_digit) (simp add: is_digit_def)



section \<open>The year pattern\<close>











section \<open>Digits\<close>

lemma of_char_digit_char: "k < 10 \<Longrightarrow> (of_char (digit_char k) :: nat) = 48 + k"
proof -
  assume "k < 10"
  then have "k = 0 \<or> k = 1 \<or> k = 2 \<or> k = 3 \<or> k = 4 \<or> k = 5 \<or> k = 6 \<or> k = 7
      \<or> k = 8 \<or> k = 9"
    by arith
  then show ?thesis
    by (elim disjE; simp add: digit_char_def)
qed

lemma digit_roundtrip:
  assumes "is_digit c"
  shows "digit_val c < 10" and "digit_char (digit_val c) = c"
proof -
  from assms have b: "48 \<le> (of_char c :: nat)" "(of_char c :: nat) \<le> 57"
    by (simp_all add: is_digit_def Let_def)
  then show k: "digit_val c < 10"
    by (simp add: digit_val_def)
  have "(of_char (digit_char (digit_val c)) :: nat) = of_char c"
    using of_char_digit_char [OF k] b by (simp add: digit_val_def)
  then show "digit_char (digit_val c) = c"
    by simp
qed

lemma digit_char_is_digit: "k < 10 \<Longrightarrow> is_digit (digit_char k) \<and> digit_val (digit_char k) = k"
  by (simp add: is_digit_def Let_def digit_val_def of_char_digit_char)

lemma div_mod_10:
  fixes q r :: nat
  assumes "r < 10"
  shows "(10 * q + r) div 10 = q" and "(10 * q + r) mod 10 = r"
  using assms by simp_all

lemma str_nat_year:
  assumes "is_digit c3" "is_digit c4"
  shows "str_nat (int_of_digits [CHR ''2'', CHR ''0'', c3, c4]) = [CHR ''2'', CHR ''0'', c3, c4]"
    and "2000 \<le> int_of_digits [CHR ''2'', CHR ''0'', c3, c4]"
    and "int_of_digits [CHR ''2'', CHR ''0'', c3, c4] \<le> 2099"
proof -
  define a where "a = digit_val c3"
  define b where "b = digit_val c4"
  have ab: "a < 10" "b < 10" "digit_char a = c3" "digit_char b = c4"
    using assms by (simp_all add: a_def b_def digit_roundtrip)
  have n: "int_of_digits [CHR ''2'', CHR ''0'', c3, c4] = 2000 + 10 * a + b"
    by (simp add: int_of_digits_def digit_val_def a_def b_def)
  have e1: "2000 + 10 * a + b = 10 * (200 + a) + b"
    by simp
  have e2: "200 + a = 10 * 20 + a"
    by simp
  have d: "(2000 + 10 * a + b) div 10 = 200 + a" "(2000 + 10 * a + b) mod 10 = b"
    by (subst e1, rule div_mod_10 [OF ab(2)])+
  have d': "(200 + a) div 10 = 20" "(200 + a) mod 10 = a"
    by (subst e2, rule div_mod_10 [OF ab(1)])+
  have "str_nat (2000 + 10 * a + b) = str_nat (200 + a) @ [digit_char b]"
    by (subst str_nat.simps) (simp add: d)
  also have "str_nat (200 + a) = str_nat 20 @ [digit_char a]"
    by (subst str_nat.simps) (simp add: d')
  also have "str_nat 20 = ''20''"
    by (simp add: str_nat.simps digit_char_def)
  finally show "str_nat (int_of_digits [CHR ''2'', CHR ''0'', c3, c4]) = [CHR ''2'', CHR ''0'', c3, c4]"
    by (simp add: n ab)
  show "2000 \<le> int_of_digits [CHR ''2'', CHR ''0'', c3, c4]"
    "int_of_digits [CHR ''2'', CHR ''0'', c3, c4] \<le> 2099"
    using ab(1,2) by (simp_all add: n)
qed

section \<open>The leftmost year token\<close>

lemma year_at_shape:
  "year_at t \<longleftrightarrow>
     (\<exists>c3 c4 rest. t = CHR ''2'' # CHR ''0'' # c3 # c4 # rest \<and> is_digit c3 \<and> is_digit c4
        \<and> (rest = [] \<or> \<not> is_word (hd rest)))"
  by (cases t rule: year_at.cases) (auto split: list.splits)





section \<open>A year in the query\<close>










section \<open>First and last day of a year\<close>

lemma div_step:
  fixes y q :: int
  assumes "0 < q"
  shows "y div q = (y - 1) div q + (if y mod q = 0 then 1 else 0)"
proof (cases "y mod q = 0")
  case True
  then obtain k where k: "y = q * k" by (auto simp: mod_eq_0_iff_dvd)
  have "(q * k - 1) div q = (q * (k - 1) + (q - 1)) div q"
    by (simp add: algebra_simps)
  also have "\<dots> = k - 1"
    using assms by simp
  finally have "(y - 1) div q = k - 1"
    by (simp add: k)
  moreover have "y div q = k"
    using assms by (simp add: k)
  ultimately show ?thesis
    using True by simp
next
  case False
  define r where "r = y mod q"
  have "0 \<le> r" and rq: "r < q"
    using assms by (simp_all add: r_def)
  with False have r: "0 < r" "r < q"
    by (simp_all add: r_def)
  have "y - 1 = q * (y div q) + (r - 1)"
    by (simp add: r_def)
  then have "(y - 1) div q = (q * (y div q) + (r - 1)) div q"
    by (simp only:)
  also have "\<dots> = y div q"
    using r by simp
  finally show ?thesis
    using False by simp
qed

lemma mod_100_4: "(y::int) mod 100 = 0 \<Longrightarrow> y mod 4 = 0"
proof -
  assume "y mod 100 = 0"
  then have "100 dvd y" by (simp add: mod_eq_0_iff_dvd)
  moreover have "(4::int) dvd 100" by simp
  ultimately have "4 dvd y" by (rule dvd_trans [rotated])
  then show ?thesis by (simp add: mod_eq_0_iff_dvd)
qed

lemma mod_400_100: "(y::int) mod 400 = 0 \<Longrightarrow> y mod 100 = 0"
proof -
  assume "y mod 400 = 0"
  then have "400 dvd y" by (simp add: mod_eq_0_iff_dvd)
  moreover have "(100::int) dvd 400" by simp
  ultimately have "100 dvd y" by (rule dvd_trans [rotated])
  then show ?thesis by (simp add: mod_eq_0_iff_dvd)
qed

lemma dby_step:
  "days_before_year (y + 1) = days_before_year y + 365 + (if is_leap y then 1 else 0)"
proof -
  define i4 :: int where "i4 = (if y mod 4 = 0 then 1 else 0)"
  define i100 :: int where "i100 = (if y mod 100 = 0 then 1 else 0)"
  define i400 :: int where "i400 = (if y mod 400 = 0 then 1 else 0)"
  define z4 where "z4 = (y - 1) div 4"
  define z100 where "z100 = (y - 1) div 100"
  define z400 where "z400 = (y - 1) div 400"
  have e1: "days_before_year (y + 1) = y * 365 + y div 4 - y div 100 + y div 400"
    by (simp add: days_before_year_def)
  have e2: "days_before_year y = (y - 1) * 365 + z4 - z100 + z400"
    by (simp add: days_before_year_def Let_def z4_def z100_def z400_def)
  have s: "y div 4 = z4 + i4" "y div 100 = z100 + i100" "y div 400 = z400 + i400"
    unfolding i4_def i100_def i400_def z4_def z100_def z400_def
    by (rule div_step, simp)+
  have "days_before_year (y + 1) = days_before_year y + 365 + (i4 - i100 + i400)"
    unfolding e1 e2 s by (simp add: algebra_simps)
  moreover have "i4 - i100 + i400 = (if is_leap y then 1 else 0)"
  proof (cases "y mod 100 = 0")
    case True
    then have m4: "y mod 4 = 0" by (rule mod_100_4)
    show ?thesis
      unfolding is_leap_def i4_def i100_def i400_def by (simp only: True m4) simp
  next
    case False
    have "y mod 400 \<noteq> 0"
    proof
      assume "y mod 400 = 0"
      then have "y mod 100 = 0" by (rule mod_400_100)
      with False show False by (simp only:)
    qed
    with False show ?thesis
      unfolding is_leap_def i4_def i100_def i400_def by (simp only:) simp
  qed
  ultimately show ?thesis by simp
qed

lemma dby_mono: "y \<le> y' \<Longrightarrow> days_before_year y \<le> days_before_year y'"
proof (induction y' rule: int_ge_induct)
  case base
  show ?case by simp
next
  case (step i)
  then show ?case using dby_step [of i] by (simp split: if_splits)
qed

lemma day_of_year:
  assumes "1 \<le> m" "m \<le> 12" "1 \<le> d" "d \<le> days_in_month y m"
  shows "1 \<le> days_before_month y m + d"
    and "days_before_month y m + d \<le> 365 + (if is_leap y then 1 else 0)"
    and "days_before_month y m + d = 1 \<Longrightarrow> m = 1 \<and> d = 1"
    and "days_before_month y m + d = 365 + (if is_leap y then 1 else 0) \<Longrightarrow> m = 12 \<and> d = 31"
proof -
  from assms(1,2) have mm: "m = 1 \<or> m = 2 \<or> m = 3 \<or> m = 4 \<or> m = 5 \<or> m = 6
      \<or> m = 7 \<or> m = 8 \<or> m = 9 \<or> m = 10 \<or> m = 11 \<or> m = 12"
    by arith
  from mm assms(3,4) show "1 \<le> days_before_month y m + d"
    by (elim disjE; simp add: days_before_month_def DAYS_BEFORE_MONTH_def)
  from mm assms(3,4) show "days_before_month y m + d \<le> 365 + (if is_leap y then 1 else 0)"
    by (elim disjE; simp add: days_before_month_def DAYS_BEFORE_MONTH_def days_in_month_def
        DAYS_IN_MONTH_def split: if_splits)
  from mm assms(3,4) show "days_before_month y m + d = 1 \<Longrightarrow> m = 1 \<and> d = 1"
    by (elim disjE; simp add: days_before_month_def DAYS_BEFORE_MONTH_def split: if_splits)
  from mm assms(3,4)
  show "days_before_month y m + d = 365 + (if is_leap y then 1 else 0) \<Longrightarrow> m = 12 \<and> d = 31"
    by (elim disjE; simp add: days_before_month_def DAYS_BEFORE_MONTH_def days_in_month_def
        DAYS_IN_MONTH_def split: if_splits)
qed

lemma ord2ymd_unique:
  assumes y: "1 \<le> y"
    and p: "1 \<le> p" "p \<le> 365 + (if is_leap y then 1 else 0)"
    and o: "ord2ymd (days_before_year y + p) = (y', m', d')"
  shows "y' = y \<and> days_before_month y m' + d' = p \<and> 1 \<le> m' \<and> m' \<le> 12 \<and> 1 \<le> d'
         \<and> d' \<le> days_in_month y m'"
proof -
  have n: "1 \<le> days_before_year y + p"
    using days_before_year_ge [OF y] p(1) by simp
  from ord2ymd_sound [OF n o]
  have s: "ymd2ord y' m' d' = days_before_year y + p" "1 \<le> y'" "1 \<le> m'" "m' \<le> 12"
    "1 \<le> d'" "d' \<le> days_in_month y' m'"
    by simp_all
  define p' where "p' = days_before_month y' m' + d'"
  have p': "1 \<le> p'" "p' \<le> 365 + (if is_leap y' then 1 else 0)"
    unfolding p'_def using day_of_year(1,2) [OF s(3-6)] by simp_all
  have eq: "days_before_year y' + p' = days_before_year y + p"
    using s(1) by (simp add: ymd2ord_def p'_def)
  have "\<not> y < y'"
  proof
    assume "y < y'"
    then have "days_before_year (y + 1) \<le> days_before_year y'"
      by (intro dby_mono) simp
    with dby_step [of y] p(2) p'(1) eq show False
      by (simp split: if_splits)
  qed
  moreover have "\<not> y' < y"
  proof
    assume "y' < y"
    then have "days_before_year (y' + 1) \<le> days_before_year y"
      by (intro dby_mono) simp
    with dby_step [of y'] p(1) p'(2) eq show False
      by (simp split: if_splits)
  qed
  ultimately have "y' = y" by simp
  with eq s show ?thesis
    by (simp add: p'_def)
qed

lemma ord2ymd_jan1: "1 \<le> y \<Longrightarrow> ord2ymd (ymd2ord y 1 1) = (y, 1, 1)"
proof -
  assume y: "1 \<le> y"
  obtain y' m' d' where o: "ord2ymd (days_before_year y + 1) = (y', m', d')"
    by (cases "ord2ymd (days_before_year y + 1)")
  have u: "y' = y \<and> days_before_month y m' + d' = 1 \<and> 1 \<le> m' \<and> m' \<le> 12 \<and> 1 \<le> d'
         \<and> d' \<le> days_in_month y m'"
    by (rule ord2ymd_unique [OF y _ _ o]) simp_all
  then have "m' = 1 \<and> d' = 1"
    using day_of_year(3) [of m' d' y] by simp
  with u o show ?thesis
    by (simp add: ymd2ord_def days_before_month_def DAYS_BEFORE_MONTH_def)
qed

lemma ord2ymd_dec31: "1 \<le> y \<Longrightarrow> ord2ymd (ymd2ord y 12 31) = (y, 12, 31)"
proof -
  assume y: "1 \<le> y"
  define p where "p = 365 + (if is_leap y then 1 else (0::int))"
  have e: "ymd2ord y 12 31 = days_before_year y + p"
    by (simp add: ymd2ord_def days_before_month_def DAYS_BEFORE_MONTH_def p_def)
  obtain y' m' d' where o: "ord2ymd (days_before_year y + p) = (y', m', d')"
    by (cases "ord2ymd (days_before_year y + p)")
  have u: "y' = y \<and> days_before_month y m' + d' = p \<and> 1 \<le> m' \<and> m' \<le> 12 \<and> 1 \<le> d'
         \<and> d' \<le> days_in_month y m'"
    by (rule ord2ymd_unique [OF y _ _ o]) (simp_all add: p_def)
  then have "m' = 12 \<and> d' = 31"
    using day_of_year(4) [of m' d' y] by (simp add: p_def)
  with u o e show ?thesis
    by simp
qed

section \<open>Printing and reading the digits of a date\<close>

lemma str_nat_snoc:
  assumes "r < 10"
  shows "str_nat (10 * q + r) = (if q = 0 then [digit_char r] else str_nat q @ [digit_char r])"
proof (cases "q = 0")
  case True
  with assms show ?thesis by (subst str_nat.simps) simp
next
  case False
  then have "\<not> 10 * q + r < 10" by simp
  with False show ?thesis
    by (subst str_nat.simps) (simp only: div_mod_10 [OF assms] if_False)
qed

lemma digit_char_0: "digit_char 0 = CHR ''0''"
  by (simp add: digit_char_def)

lemma fmt2:
  assumes "a < 10" "b < 10"
  shows "zfill 2 (str_nat (10 * a + b)) = [digit_char a, digit_char b]"
  using assms by (simp add: str_nat_snoc [OF assms(2)] str_nat_snoc [of a 0, simplified]
      zfill_def digit_char_0)

lemma fmt4:
  assumes "a < 10" "b < 10" "c < 10" "d < 10"
  shows "zfill 4 (str_nat (10 * (10 * (10 * a + b) + c) + d))
           = [digit_char a, digit_char b, digit_char c, digit_char d]"
proof -
  have 1: "str_nat a = [digit_char a]"
    using assms(1) by (subst str_nat.simps) simp
  have 2: "str_nat (10 * a + b) = (if a = 0 then [digit_char b] else [digit_char a, digit_char b])"
    using str_nat_snoc [OF assms(2), of a] 1 by simp
  have 3: "str_nat (10 * (10 * a + b) + c)
      = (if a = 0 \<and> b = 0 then [digit_char c] else str_nat (10 * a + b) @ [digit_char c])"
    using str_nat_snoc [OF assms(3), of "10 * a + b"] by simp
  have 4: "str_nat (10 * (10 * (10 * a + b) + c) + d)
      = (if a = 0 \<and> b = 0 \<and> c = 0 then [digit_char d]
         else str_nat (10 * (10 * a + b) + c) @ [digit_char d])"
    using str_nat_snoc [OF assms(4), of "10 * (10 * a + b) + c"] by simp
  show ?thesis
    unfolding 4 3 2 by (simp add: zfill_def digit_char_0 eval_nat_numeral)
qed

lemma digits_of:
  fixes n :: nat
  assumes "n < 10000"
  obtains a b c d where "a < 10" "b < 10" "c < 10" "d < 10"
    "n = 10 * (10 * (10 * a + b) + c) + d"
proof -
  define d where "d = n mod 10"
  define n1 where "n1 = n div 10"
  define c where "c = n1 mod 10"
  define n2 where "n2 = n1 div 10"
  define b where "b = n2 mod 10"
  define a where "a = n2 div 10"
  have e: "n = 10 * n1 + d" "n1 = 10 * n2 + c" "n2 = 10 * a + b"
    by (simp_all add: d_def n1_def c_def n2_def b_def a_def)
  have "n1 < 1000" using assms e(1) by simp
  then have "n2 < 100" using e(2) by simp
  then have "a < 10" using e(3) by simp
  moreover have "b < 10" "c < 10" "d < 10"
    by (simp_all add: b_def c_def d_def)
  moreover have "n = 10 * (10 * (10 * a + b) + c) + d"
    using e by simp
  ultimately show ?thesis by (rule that)
qed

lemma read4:
  assumes "a < 10" "b < 10" "c < 10" "d < 10"
  shows "int_of_digits [digit_char a, digit_char b, digit_char c, digit_char d]
           = 10 * (10 * (10 * a + b) + c) + d"
  using assms by (simp add: int_of_digits_def digit_char_is_digit)

lemma read2:
  assumes "a < 10" "b < 10"
  shows "int_of_digits [digit_char a, digit_char b] = 10 * a + b"
  using assms by (simp add: int_of_digits_def digit_char_is_digit)

lemma iso_text:
  assumes "0 \<le> y" "y \<le> 9999" "0 \<le> m" "m \<le> 99" "0 \<le> d" "d \<le> 99"
  obtains y1 y2 y3 y4 m1 m2 d1 d2 where
    "zfill 4 (str_nat (nat y)) @ ''-'' @ zfill 2 (str_nat (nat m)) @ ''-'' @ zfill 2 (str_nat (nat d))
       = [y1, y2, y3, y4, CHR ''-'', m1, m2, CHR ''-'', d1, d2]"
    "is_digit y1" "is_digit y2" "is_digit y3" "is_digit y4"
    "is_digit m1" "is_digit m2" "is_digit d1" "is_digit d2"
    "int (int_of_digits [y1, y2, y3, y4]) = y"
    "int (int_of_digits [m1, m2]) = m"
    "int (int_of_digits [d1, d2]) = d"
proof -
  from assms(1,2) have "nat y < 10000" by simp
  then obtain a b c e where y: "a < 10" "b < 10" "c < 10" "e < 10"
    "nat y = 10 * (10 * (10 * a + b) + c) + e"
    by (rule digits_of)
  from assms(3,4) have "nat m < 10000" by simp
  then obtain ma mb mc me where m: "ma < 10" "mb < 10" "mc < 10" "me < 10"
    "nat m = 10 * (10 * (10 * ma + mb) + mc) + me"
    by (rule digits_of)
  from m(5) assms(4) have m0: "ma = 0" "mb = 0" by simp_all
  from assms(5,6) have "nat d < 10000" by simp
  then obtain da db dc de where d: "da < 10" "db < 10" "dc < 10" "de < 10"
    "nat d = 10 * (10 * (10 * da + db) + dc) + de"
    by (rule digits_of)
  from d(5) assms(6) have d0: "da = 0" "db = 0" by simp_all
  have ty: "zfill 4 (str_nat (nat y)) = [digit_char a, digit_char b, digit_char c, digit_char e]"
    unfolding y(5) by (rule fmt4 [OF y(1-4)])
  have tm: "zfill 2 (str_nat (nat m)) = [digit_char mc, digit_char me]"
    using fmt2 [OF m(3,4)] by (simp add: m(5) m0)
  have td: "zfill 2 (str_nat (nat d)) = [digit_char dc, digit_char de]"
    using fmt2 [OF d(3,4)] by (simp add: d(5) d0)
  show ?thesis
  proof (rule that)
    show "zfill 4 (str_nat (nat y)) @ ''-'' @ zfill 2 (str_nat (nat m)) @ ''-''
          @ zfill 2 (str_nat (nat d))
       = [digit_char a, digit_char b, digit_char c, digit_char e, CHR ''-'',
          digit_char mc, digit_char me, CHR ''-'', digit_char dc, digit_char de]"
      by (simp add: ty tm td)
    show "is_digit (digit_char a)" "is_digit (digit_char b)" "is_digit (digit_char c)"
      "is_digit (digit_char e)" "is_digit (digit_char mc)" "is_digit (digit_char me)"
      "is_digit (digit_char dc)" "is_digit (digit_char de)"
      using y m d by (simp_all add: digit_char_is_digit)
    show "int (int_of_digits [digit_char a, digit_char b, digit_char c, digit_char e]) = y"
      using read4 [OF y(1-4)] y(5) assms(1) by simp
    show "int (int_of_digits [digit_char mc, digit_char me]) = m"
      using read2 [OF m(3,4)] m(5) m0 assms(3) by simp
    show "int (int_of_digits [digit_char dc, digit_char de]) = d"
      using read2 [OF d(3,4)] d(5) d0 assms(5) by simp
  qed
qed

lemma parse_iso_isoformat:
  assumes "valid_date d"
  shows "parse_iso (JString (isoformat d)) = Inr d"
proof -
  from assms have v: "1 \<le> d" "d \<le> MAXORDINAL"
    by (simp_all add: valid_date_def)
  obtain y m dd where o: "ord2ymd d = (y, m, dd)"
    by (cases "ord2ymd d")
  from ord2ymd_sound [OF v(1) o] v(2)
  have s: "ymd2ord y m dd = d" "1 \<le> y" "1 \<le> m" "m \<le> 12" "1 \<le> dd"
    "dd \<le> days_in_month y m" "y \<le> 9999"
    by simp_all
  have dd: "dd \<le> 31"
    using s(6) days_in_month_le [OF s(3,4), of y] by simp
  have b: "0 \<le> y" "y \<le> 9999" "0 \<le> m" "m \<le> 99" "0 \<le> dd" "dd \<le> 99"
    using s dd by simp_all
  obtain y1 y2 y3 y4 m1 m2 d1 d2 where t:
    "zfill 4 (str_nat (nat y)) @ ''-'' @ zfill 2 (str_nat (nat m)) @ ''-'' @ zfill 2 (str_nat (nat dd))
       = [y1, y2, y3, y4, CHR ''-'', m1, m2, CHR ''-'', d1, d2]"
    "is_digit y1" "is_digit y2" "is_digit y3" "is_digit y4"
    "is_digit m1" "is_digit m2" "is_digit d1" "is_digit d2"
    "int (int_of_digits [y1, y2, y3, y4]) = y"
    "int (int_of_digits [m1, m2]) = m"
    "int (int_of_digits [d1, d2]) = dd"
    by (rule iso_text [OF b])
  have i: "isoformat d = [y1, y2, y3, y4, CHR ''-'', m1, m2, CHR ''-'', d1, d2]"
    unfolding isoformat_def o prod.case by (rule t(1))
  show ?thesis
    unfolding i using t(2-12) s by (simp add: parse_iso_def Let_def)
qed

section \<open>From the dict to the filter and back\<close>

lemma year_scan_shape:
  "year_scan w s = Some g \<Longrightarrow>
     \<exists>c3 c4. g = [CHR ''2'', CHR ''0'', c3, c4] \<and> is_digit c3 \<and> is_digit c4"
proof (induction s arbitrary: w)
  case Nil
  then show ?case by simp
next
  case (Cons c cs)
  show ?case
  proof (cases "\<not> w \<and> year_at (c # cs)")
    case True
    with Cons.prems have g: "g = take 4 (c # cs)"
      by (simp del: year_at.simps)
    from True obtain c3 c4 rest where
      "c # cs = CHR ''2'' # CHR ''0'' # c3 # c4 # rest" "is_digit c3" "is_digit c4"
      unfolding year_at_shape by blast
    with g show ?thesis by simp
  next
    case False
    with Cons.prems have "year_scan (is_word c) cs = Some g"
      by (auto simp del: year_at.simps)
    then show ?thesis by (rule Cons.IH)
  qed
qed

lemma dby_2100: "days_before_year 2100 = 766644"
  by (simp add: days_before_year_def)

lemma year_iso:
  assumes "is_digit c3" "is_digit c4"
  defines "g \<equiv> [CHR ''2'', CHR ''0'', c3, c4]"
  shows "\<exists>d1 d2. valid_date d1 \<and> valid_date d2
           \<and> isoformat d1 = str_nat (int_of_digits g) @ ''-01-01''
           \<and> isoformat d2 = str_nat (int_of_digits g) @ ''-12-31''"
proof -
  define y where "y = int (int_of_digits g)"
  have t: "str_nat (int_of_digits g) = g" "2000 \<le> int_of_digits g" "int_of_digits g \<le> 2099"
    unfolding g_def using str_nat_year [OF assms(1,2)] by simp_all
  have y: "1 \<le> y" "y \<le> 2100"
    using t(2,3) by (simp_all add: y_def)
  have z: "zfill 4 (str_nat (nat y)) = g"
    by (simp add: y_def t(1)) (simp add: zfill_def g_def)
  have low: "0 \<le> days_before_year y"
    using y(1) by (rule days_before_year_ge)
  have high: "days_before_year y \<le> 766644"
    using dby_mono [OF y(2)] by (simp add: dby_2100)
  have i1: "isoformat (ymd2ord y 1 1) = g @ ''-01-01''"
    unfolding isoformat_def ord2ymd_jan1 [OF y(1)] prod.case z
    by (simp add: zfill_def str_nat.simps digit_char_def)
  have i2: "isoformat (ymd2ord y 12 31) = g @ ''-12-31''"
    unfolding isoformat_def ord2ymd_dec31 [OF y(1)] prod.case z
    by (simp add: zfill_def str_nat.simps digit_char_def)
  have v1: "valid_date (ymd2ord y 1 1)"
    using low high
    by (simp add: valid_date_def MAXORDINAL_def ymd2ord_def days_before_month_def
        DAYS_BEFORE_MONTH_def)
  have v2: "valid_date (ymd2ord y 12 31)"
    using low high
    by (simp add: valid_date_def MAXORDINAL_def ymd2ord_def days_before_month_def
        DAYS_BEFORE_MONTH_def)
  from i1 i2 v1 v2 show ?thesis
    unfolding t(1) by blast
qed

text \<open>
  C9. Let \<open>parse_date\<close> read the ISO text of every date of the calendar as that date, as
  \<open>dateutil\<close> does, and let the clock show a date from 0001-02-01 on. Then for every
  query the fallback parser returns a dict, and \<open>build_filter_expression\<close> turns it into
  a filter in which the very strings of the dict stand: its \<open>date\<close> before
  \<open>T00:00:00Z\<close>, or its \<open>start\<close> before \<open>T00:00:00Z\<close> and its \<open>end\<close> before
  \<open>T23:59:59Z\<close>.
\<close>

theorem fallback_filter_round_trip:
  assumes "\<And>d. valid_date d \<Longrightarrow> pd (JString (isoformat d)) = Inr d"
    and "31 < today" and "today \<le> MAXORDINAL"
  shows "\<exists>dq. fallback_date_parser today user_query = Inr dq
     \<and> ((\<exists>d. dq = single_query d
            \<and> build_filter_expression pd dq
                = Inr (''metadata_spo_item_release_date eq '' @ d @ ''T00:00:00Z''))
          \<or> (\<exists>s e. dq = range_query s e
            \<and> build_filter_expression pd dq
                = Inr (''(metadata_spo_item_release_date ge '' @ s
                       @ ''T00:00:00Z and metadata_spo_item_release_date le '' @ e
                       @ ''T23:59:59Z)'')))"
proof -
  have single: "build_filter_expression pd (single_query (isoformat d))
      = Inr (''metadata_spo_item_release_date eq '' @ isoformat d @ ''T00:00:00Z'')"
    if "valid_date d" for d
    using assms(1) [OF that] by (simp add: build_filter_expression_def single_query_def)
  have range: "build_filter_expression pd (range_query (isoformat s) (isoformat e))
      = Inr (''(metadata_spo_item_release_date ge '' @ isoformat s
             @ ''T00:00:00Z and metadata_spo_item_release_date le '' @ isoformat e
             @ ''T23:59:59Z)'')"
    if "valid_date s" "valid_date e" for s e
    using assms(1) [OF that(1)] assms(1) [OF that(2)]
    by (simp add: build_filter_expression_def range_query_def)
  from fallback_total [OF assms(2,3), of user_query] obtain dq where
    f: "fallback_date_parser today user_query = Inr dq"
    and k: "(\<exists>d. dq = single_query (isoformat d) \<and> valid_date d)
        \<or> (\<exists>s e. dq = range_query (isoformat s) (isoformat e) \<and> valid_date s \<and> valid_date e)
        \<or> (\<exists>g. year_search (strip (lower user_query)) = Some g
              \<and> dq = range_query (str_nat (int_of_digits g) @ ''-01-01'')
                                 (str_nat (int_of_digits g) @ ''-12-31''))"
    by blast
  from k consider
    (one) d where "dq = single_query (isoformat d)" "valid_date d"
    | (two) s e where "dq = range_query (isoformat s) (isoformat e)" "valid_date s" "valid_date e"
    | (year) g where "year_search (strip (lower user_query)) = Some g"
        "dq = range_query (str_nat (int_of_digits g) @ ''-01-01'')
                          (str_nat (int_of_digits g) @ ''-12-31'')"
    by blast
  then show ?thesis
  proof cases
    case one
    with f single [OF one(2)] show ?thesis by blast
  next
    case two
    with f range [OF two(2,3)] show ?thesis by blast
  next
    case year
    from year(1) obtain c3 c4 where
      g: "g = [CHR ''2'', CHR ''0'', c3, c4]" "is_digit c3" "is_digit c4"
      unfolding year_search_def using year_scan_shape by blast
    from year_iso [OF g(2,3)] obtain d1 d2 where
      d: "valid_date d1" "valid_date d2"
        "isoformat d1 = str_nat (int_of_digits g) @ ''-01-01''"
        "isoformat d2 = str_nat (int_of_digits g) @ ''-12-31''"
      unfolding g(1) by blast
    from range [OF d(1,2)] f year(2) show ?thesis
      unfolding d(3,4) by blast
  qed
qed

lemma fallback_ayer: "fallback_date_parser 739021 ''ayer'' = Inr (single_query ''2024-05-14'')"
  by (simp add: fallback_date_parser_def text_eval date_sub_def date_add_def MAXORDINAL_def
      iso_2024_05_14)

theorem fallback_filter_round_trip_witness:
  "(\<exists>dq. fallback_date_parser 739021 ''ayer'' = Inr dq
     \<and> ((\<exists>d. dq = single_query d
            \<and> build_filter_expression parse_iso dq
                = Inr (''metadata_spo_item_release_date eq '' @ d @ ''T00:00:00Z''))
          \<or> (\<exists>s e. dq = range_query s e
            \<and> build_filter_expression parse_iso dq
                = Inr (''(metadata_spo_item_release_date ge '' @ s
                       @ ''T00:00:00Z and metadata_spo_item_release_date le '' @ e
                       @ ''T23:59:59Z)''))))
   \<and> fallback_date_parser 739021 ''ayer'' = Inr (single_query ''2024-05-14'')
   \<and> build_filter_expression parse_iso (single_query ''2024-05-14'')
       = Inr ''metadata_spo_item_release_date eq 2024-05-14T00:00:00Z''"
proof -
  have b: "31 < (739021::int)" "739021 \<le> MAXORDINAL"
    by (simp_all add: MAXORDINAL_def)
  have "valid_date 739020"
    by (simp add: valid_date_def MAXORDINAL_def)
  then have "parse_iso (JString ''2024-05-14'') = Inr 739020"
    using parse_iso_isoformat [of 739020] by (simp add: iso_2024_05_14)
  then have "build_filter_expression parse_iso (single_query ''2024-05-14'')
       = Inr ''metadata_spo_item_release_date eq 2024-05-14T00:00:00Z''"
    by (simp add: build_filter_expression_def single_query_def iso_2024_05_14)
  with fallback_filter_round_trip [of parse_iso 739021 "''ayer''", OF parse_iso_isoformat b]
    fallback_ayer
  show ?thesis by blast
qed

section \<open>The brace patterns\<close>


lemma lazy_match_iff:
  "lazy_match t \<longleftrightarrow>
     (\<exists>b. t = CHR ''{'' # b @ ''}'' \<and> CHR ''}'' \<notin> set b \<and> CHR 0x0A \<notin> set b)"
proof
  assume s: "lazy_match t"
  then have l: "2 \<le> length t" by (simp add: lazy_match_def)
  then obtain c r where t: "t = c # r" "r \<noteq> []"
    by (auto simp: Suc_le_length_iff numeral_2_eq_2)
  then have r: "r = butlast r @ [last r]" by simp
  from s t have "c = CHR ''{''" "last r = CHR ''}''"
    "list_all (\<lambda>c. c \<noteq> CHR ''}'' \<and> c \<noteq> CHR 0x0A) (butlast r)"
    by (simp_all add: lazy_match_def)
  with t r show "\<exists>b. t = CHR ''{'' # b @ ''}'' \<and> CHR ''}'' \<notin> set b \<and> CHR 0x0A \<notin> set b"
    by (intro exI [of _ "butlast r"]) (auto simp: list_all_iff)
next
  assume "\<exists>b. t = CHR ''{'' # b @ ''}'' \<and> CHR ''}'' \<notin> set b \<and> CHR 0x0A \<notin> set b"
  then show "lazy_match t"
    by (auto simp: lazy_match_def list_all_iff)
qed




lemma lazy_body_match:
  "CHR ''}'' \<notin> set b \<Longrightarrow> CHR 0x0A \<notin> set b \<Longrightarrow> lazy_body (b @ CHR ''}'' # post) = Some b"
  by (induction b) auto




lemma lazy_brace_search_complete:
  "s = pre @ js @ post \<Longrightarrow> lazy_match js \<Longrightarrow> lazy_brace_search s \<noteq> None"
proof (induction pre arbitrary: s)
  case Nil
  from Nil(2) obtain b where b: "js = CHR ''{'' # b @ ''}''" "CHR ''}'' \<notin> set b"
    "CHR 0x0A \<notin> set b"
    by (auto simp: lazy_match_iff)
  with Nil(1) have "s = CHR ''{'' # (b @ CHR ''}'' # post)" by simp
  with lazy_body_match [OF b(2,3), of post] show ?case by simp
next
  case (Cons p ps)
  from Cons.IH [OF refl Cons.prems(2)] Cons.prems(1) show ?case
    by (auto split: option.splits)
qed

section \<open>Extracting the JSON\<close>








end
